theory Spec2Isabelle
  imports Complex_Main "HOL-Library.Word"
begin

unbundle bit_operations_syntax

section \<open>The binary reader \<open>BR\<close>\<close>

text \<open>
  The importer reads a file opened in binary mode through the helper class \<open>BR\<close>.
  The file is a list of bytes and the cursor of the file object is a position that every
  read returns updated. \<open>f.read(n)\<close> returns the bytes that are left, at most \<open>n\<close> of
  them, and moves the cursor past them; a cursor beyond the end of the file stays where it
  is. \<open>struct.unpack\<close> raises \<open>struct.error\<close> when it is given fewer bytes than the
  format needs: a read returns \<open>None\<close> then, together with the cursor the short read left.
  The byte order is the configured one, \<open>endian = '<'\<close>.
\<close>

type_synonym byte = "8 word"

datatype error =
    StructError          \<comment> \<open>\<open>struct.error\<close>, raised by a read that runs out of bytes\<close>
  | IndexError           \<comment> \<open>a list index out of range\<close>
  | StructIdError nat    \<comment> \<open>"NativeDataPLG did not contain expected Struct ID at offset ..."\<close>
  | UnsupportedPlatform nat  \<comment> \<open>"Unsupported platform 0x..."\<close>

definition f_read :: "byte list \<Rightarrow> nat \<Rightarrow> nat \<Rightarrow> byte list \<times> nat" where
  "f_read buf pos n = (let got = take n (drop pos buf) in (got, pos + length got))"

text \<open>The value of a little-endian byte string, as an unsigned number.\<close>

fun le_nat :: "byte list \<Rightarrow> nat" where
  "le_nat [] = 0"
| "le_nat (b # bs) = unat b + 256 * le_nat bs"

text \<open>Two's complement reading of an unsigned number of \<open>w\<close> bits (formats \<open>i\<close>, \<open>h\<close>).\<close>

definition to_signed :: "nat \<Rightarrow> nat \<Rightarrow> int" where
  "to_signed w n = (if n < 2 ^ (w - 1) then int n else int n - 2 ^ w)"

definition read_i32 :: "byte list \<Rightarrow> nat \<Rightarrow> int option \<times> nat" where
  "read_i32 buf pos =
     (case f_read buf pos 4 of (bs, pos') \<Rightarrow>
        (if length bs = 4 then Some (to_signed 32 (le_nat bs)) else None, pos'))"

definition read_u32 :: "byte list \<Rightarrow> nat \<Rightarrow> 32 word option \<times> nat" where
  "read_u32 buf pos =
     (case f_read buf pos 4 of (bs, pos') \<Rightarrow>
        (if length bs = 4 then Some (word_of_nat (le_nat bs)) else None, pos'))"

definition read_i16 :: "byte list \<Rightarrow> nat \<Rightarrow> int option \<times> nat" where
  "read_i16 buf pos =
     (case f_read buf pos 2 of (bs, pos') \<Rightarrow>
        (if length bs = 2 then Some (to_signed 16 (le_nat bs)) else None, pos'))"

definition read_u8 :: "byte list \<Rightarrow> nat \<Rightarrow> byte option \<times> nat" where
  "read_u8 buf pos =
     (case f_read buf pos 1 of (bs, pos') \<Rightarrow>
        (if length bs = 1 then Some (hd bs) else None, pos'))"

section \<open>Constants\<close>

definition BINMESH_PLG_ID :: int where "BINMESH_PLG_ID = 0x50E"
definition NATIVE_DATA_PLG_ID :: int where "NATIVE_DATA_PLG_ID = 0x510"
definition STRUCT_ID :: int where "STRUCT_ID = 0x1"
definition DMATAG_VERTEX_4_INT16 :: "32 word" where "DMATAG_VERTEX_4_INT16 = 0x6D008000"

text \<open>
  \<open>SCALE = 1.0 / 128.0\<close> is the power of two \<open>2\<^sup>-\<^sup>7\<close>, and the coordinates it scales
  are 16-bit integers, so every product \<open>x * SCALE\<close> is a dyadic rational that the
  floating-point format represents exactly: the arithmetic of the source on these values
  is the arithmetic of the rationals, and its equality test is equality of rationals.
\<close>

definition SCALE :: rat where "SCALE = 1 / 128"

section \<open>Vertices and the triangle reconstruction\<close>

datatype Vector = Vector (vx: rat) (vy: rat) (vz: rat)

text \<open>
  The body of the loop \<open>for i in range(2, vc)\<close> of \<open>parse_native_data_plg\<close>: the three
  vertices are compared coordinate by coordinate; \<open>continue\<close> leaves the list as it is.
\<close>

definition tri_step :: "Vector list \<Rightarrow> nat list \<Rightarrow> nat \<Rightarrow> nat list" where
  "tri_step Vertices tris i =
     (let v_i = Vertices ! i; v_i1 = Vertices ! (i - 1); v_i2 = Vertices ! (i - 2) in
      if (vx v_i = vx v_i1 \<and> vy v_i = vy v_i1 \<and> vz v_i = vz v_i1) \<or>
         (vx v_i = vx v_i2 \<and> vy v_i = vy v_i2 \<and> vz v_i = vz v_i2) \<or>
         (vx v_i1 = vx v_i2 \<and> vy v_i1 = vy v_i2 \<and> vz v_i1 = vz v_i2)
      then tris
      else if i mod 2 = 0 then tris @ [i, i - 2, i - 1]
      else tris @ [i - 1, i - 2, i])"

definition reconstruct_triangles :: "Vector list \<Rightarrow> nat list" where
  "reconstruct_triangles Vertices = foldl (tri_step Vertices) [] [2..<length Vertices]"

text \<open>The triple the reconstruction emits for the index \<open>i\<close>, or nothing.\<close>

definition candidate :: "Vector list \<Rightarrow> nat \<Rightarrow> nat list" where
  "candidate vs i =
     (if vs ! i = vs ! (i - 1) \<or> vs ! i = vs ! (i - 2) \<or> vs ! (i - 1) = vs ! (i - 2) then []
      else if even i then [i, i - 2, i - 1] else [i - 1, i - 2, i])"

section \<open>The chunk locator\<close>

text \<open>
  \<open>chunk.find(pattern, start)\<close> of the Python library: the lowest index from \<open>start\<close>
  on at which \<open>pattern\<close> occurs in \<open>chunk\<close>; \<open>None\<close> stands for the result \<open>-1\<close>.
\<close>

function bytes_find :: "byte list \<Rightarrow> byte list \<Rightarrow> nat \<Rightarrow> nat option" where
  "bytes_find chunk pattern start =
     (if length chunk < start + length pattern then None
      else if take (length pattern) (drop start chunk) = pattern then Some start
      else bytes_find chunk pattern (Suc start))"
  by pat_completeness auto
termination
proof (relation "measure (\<lambda>(chunk, pattern, start). length chunk - start)")
  show "wf (measure (\<lambda>(chunk, pattern, start). length chunk - start))"
    by simp
next
  fix chunk pattern :: "byte list" and start :: nat
  assume fits: "\<not> length chunk < start + length pattern"
    and differs: "take (length pattern) (drop start chunk) \<noteq> pattern"
  have "start < length chunk"
  proof (rule ccontr)
    assume "\<not> start < length chunk"
    with fits have "length pattern = 0" by arith
    then have "pattern = []" by simp
    with differs show False by simp
  qed
  then show "((chunk, pattern, Suc start), (chunk, pattern, start))
      \<in> measure (\<lambda>(chunk, pattern, start). length chunk - start)"
    by simp
qed

declare bytes_find.simps [simp del]

text \<open>
  \<open>struct.pack(endian + "i", target_id)\<close>: the four bytes of a signed 32-bit number,
  lowest byte first; a number outside the range raises \<open>struct.error\<close>.
\<close>

definition pack_i32 :: "int \<Rightarrow> error + byte list" where
  "pack_i32 v =
     (if - (2 ^ 31) \<le> v \<and> v < 2 ^ 31
      then Inr [word_of_int v, word_of_int (v div 2 ^ 8),
                word_of_int (v div 2 ^ 16), word_of_int (v div 2 ^ 24)]
      else Inl StructError)"

lemma bytes_find_bounds:
  "bytes_find chunk pattern start = Some idx \<Longrightarrow>
     start \<le> idx \<and> idx + length pattern \<le> length chunk"
proof (induction chunk pattern start rule: bytes_find.induct)
  case (1 chunk pattern start)
  from "1.prems" show ?case
    by (subst (asm) bytes_find.simps) (use "1.IH" in \<open>auto split: if_splits\<close>)
qed

text \<open>The pattern occurs in the chunk at the offset \<open>k\<close>.\<close>

definition occurs_at :: "byte list \<Rightarrow> byte list \<Rightarrow> nat \<Rightarrow> bool" where
  "occurs_at chunk pattern k \<longleftrightarrow>
     k + length pattern \<le> length chunk \<and> take (length pattern) (drop k chunk) = pattern"

text \<open>The loop \<open>while True\<close> of \<open>find_chunk_positions\<close>.\<close>

function find_loop :: "byte list \<Rightarrow> byte list \<Rightarrow> nat \<Rightarrow> nat list \<Rightarrow> nat list" where
  "find_loop chunk pattern start matches =
     (case bytes_find chunk pattern start of
        None \<Rightarrow> matches
      | Some idx \<Rightarrow> find_loop chunk pattern (idx + 4) (matches @ [idx]))"
  by pat_completeness auto
termination
proof (relation "measure (\<lambda>(chunk, pattern, start, matches). length chunk + 4 - start)")
  show "wf (measure (\<lambda>(chunk, pattern, start, matches). length chunk + 4 - start))"
    by simp
next
  fix chunk pattern :: "byte list" and start idx :: nat and matches :: "nat list"
  assume "bytes_find chunk pattern start = Some idx"
  then have "start \<le> idx \<and> idx + length pattern \<le> length chunk"
    by (rule bytes_find_bounds)
  then show "((chunk, pattern, idx + 4, matches @ [idx]), (chunk, pattern, start, matches))
      \<in> measure (\<lambda>(chunk, pattern, start, matches). length chunk + 4 - start)"
    by auto
qed

declare find_loop.simps [simp del]

definition find_chunk_positions :: "byte list \<Rightarrow> int \<Rightarrow> error + nat list" where
  "find_chunk_positions f target_id =
     (let chunk = fst (f_read f 0 (length f)) in
      case pack_i32 target_id of
        Inl e \<Rightarrow> Inl e
      | Inr pattern \<Rightarrow> Inr (find_loop chunk pattern 0 []))"

section \<open>The mesh-split header: \<open>parse_binmesh_plg\<close>\<close>

record BinMesh =
  iIndexCount :: int
  iMaterialIndex :: int
  VertexIndices :: "int list option"

text \<open>
  The dictionary \<open>parse_binmesh_plg\<close> returns. The early return for a section of size 12
  has the first two keys only, so the last two are optional.
\<close>

record BinMeshPlg =
  iMaterialSplitCount :: int
  binMeshes :: "BinMesh list"
  section_size :: "int option"
  section_offset :: "nat option"

text \<open>
  The loop \<open>for _ in range(iIndexCount)\<close>: a read that runs out of bytes is caught and
  ends the loop, with the indices read so far and the cursor where the short read left it.
\<close>

fun read_indices :: "byte list \<Rightarrow> nat \<Rightarrow> nat \<Rightarrow> int list \<Rightarrow> int list \<times> nat" where
  "read_indices buf 0 pos idxs = (idxs, pos)"
| "read_indices buf (Suc n) pos idxs =
     (case read_i32 buf pos of
        (None, pos') \<Rightarrow> (idxs, pos')
      | (Some v, pos') \<Rightarrow> read_indices buf n pos' (idxs @ [v]))"

text \<open>
  The loop \<open>for i in range(iMaterialSplitCount)\<close>, with the number of iterations that
  are left as its second numeric argument. The reads of the two fields are not guarded.
\<close>

fun read_binmeshes ::
  "byte list \<Rightarrow> int \<Rightarrow> int \<Rightarrow> nat \<Rightarrow> nat \<Rightarrow> BinMesh list \<Rightarrow> error + BinMesh list" where
  "read_binmeshes buf iSectionSize iMaterialSplitCount' 0 pos binMeshes' = Inr binMeshes'"
| "read_binmeshes buf iSectionSize iMaterialSplitCount' (Suc n) pos binMeshes' =
     (case read_i32 buf pos of
        (None, _) \<Rightarrow> Inl StructError
      | (Some iIndexCount', pos1) \<Rightarrow>
     (case read_i32 buf pos1 of
        (None, _) \<Rightarrow> Inl StructError
      | (Some iMaterialIndex', pos2) \<Rightarrow>
          if iSectionSize \<noteq> 12 + 8 * iMaterialSplitCount' then
            (case read_indices buf (nat iIndexCount') pos2 [] of
               (idxs, pos3) \<Rightarrow>
                 read_binmeshes buf iSectionSize iMaterialSplitCount' n pos3
                   (binMeshes' @ [\<lparr>iIndexCount = iIndexCount', iMaterialIndex = iMaterialIndex',
                                   VertexIndices = Some idxs\<rparr>]))
          else
            read_binmeshes buf iSectionSize iMaterialSplitCount' n pos2
              (binMeshes' @ [\<lparr>iIndexCount = iIndexCount', iMaterialIndex = iMaterialIndex',
                              VertexIndices = None\<rparr>])))"

definition parse_binmesh_plg :: "byte list \<Rightarrow> nat \<Rightarrow> error + BinMeshPlg" where
  "parse_binmesh_plg buf offset =
     (case read_i32 buf offset of
        (None, _) \<Rightarrow> Inl StructError
      | (Some section_id, pos1) \<Rightarrow>
     (case read_i32 buf pos1 of
        (None, _) \<Rightarrow> Inl StructError
      | (Some iSectionSize, pos2) \<Rightarrow>
     (case read_i32 buf pos2 of
        (None, _) \<Rightarrow> Inl StructError
      | (Some iRenderWareVersion, data_start) \<Rightarrow>
          if iSectionSize = 12 then
            Inr \<lparr>iMaterialSplitCount = 0, binMeshes = [],
                 section_size = None, section_offset = None\<rparr>
          else
     (case read_i32 buf data_start of
        (None, _) \<Rightarrow> Inl StructError
      | (Some iFaceType, pos4) \<Rightarrow>
     (case read_i32 buf pos4 of
        (None, _) \<Rightarrow> Inl StructError
      | (Some iMaterialSplitCount', pos5) \<Rightarrow>
     (case read_i32 buf pos5 of
        (None, _) \<Rightarrow> Inl StructError
      | (Some iTotalFaceCount, pos6) \<Rightarrow>
     (case read_binmeshes buf iSectionSize iMaterialSplitCount' (nat iMaterialSplitCount') pos6 [] of
        Inl e \<Rightarrow> Inl e
      | Inr binMeshes' \<Rightarrow>
          Inr \<lparr>iMaterialSplitCount = iMaterialSplitCount', binMeshes = binMeshes',
               section_size = Some iSectionSize, section_offset = Some offset\<rparr>)))))))"


section \<open>The native geometry: \<open>parse_native_data_plg\<close>\<close>

text \<open>
  One material split of the result. The key \<open>HasVertexData\<close> is set together with
  \<open>Vertices\<close> and read with the default \<open>False\<close>; a key that is absent is \<open>False\<close> here.
\<close>

record MaterialSplit =
  ms_iMaterialIndex :: int
  Vertices :: "Vector list option"
  Triangles :: "nat list"
  HasVertexData :: bool

text \<open>
  One vertex: three signed 16-bit numbers, each converted to a float and scaled, and two
  bytes of padding that the cursor skips. \<open>None\<close> is the \<open>except\<close> branch, taken when one
  of the three reads runs out of bytes.
\<close>

definition read_vertex :: "byte list \<Rightarrow> nat \<Rightarrow> (Vector \<times> nat) option" where
  "read_vertex buf pos =
     (case read_i16 buf pos of
        (None, _) \<Rightarrow> None
      | (Some x, pos1) \<Rightarrow>
     (case read_i16 buf pos1 of
        (None, _) \<Rightarrow> None
      | (Some y, pos2) \<Rightarrow>
     (case read_i16 buf pos2 of
        (None, _) \<Rightarrow> None
      | (Some z, pos3) \<Rightarrow>
          Some (Vector (of_int x * SCALE) (of_int y * SCALE) (of_int z * SCALE), pos3 + 2))))"

text \<open>The loop \<open>for vi in range(idxcount)\<close>; \<open>break\<close> keeps the vertices read so far.\<close>

fun read_vertices :: "byte list \<Rightarrow> nat \<Rightarrow> nat \<Rightarrow> Vector list \<Rightarrow> Vector list" where
  "read_vertices buf 0 pos verts = verts"
| "read_vertices buf (Suc n) pos verts =
     (case read_vertex buf pos of
        None \<Rightarrow> verts
      | Some (v, pos') \<Rightarrow> read_vertices buf n pos' (verts @ [v]))"

lemma read_u8_cursor: "read_u8 buf pos = (Some v, pos') \<Longrightarrow> pos' = pos + 1"
  by (auto simp: read_u8_def f_read_def Let_def split: if_splits)

lemma read_u32_cursor: "read_u32 buf pos = (Some v, pos') \<Longrightarrow> pos' = pos + 4"
  by (auto simp: read_u32_def f_read_def Let_def split: if_splits)

text \<open>
  The loop \<open>while (br.pos() < lDMASectionEnd) and (not bReachedEnd)\<close> over the DMA
  entries of one split. \<open>idxcount\<close> is \<open>binmesh["binMeshes"][split_idx]["iIndexCount"]\<close>.
  Only the read of the entry's id is guarded; the loop returns the split and the cursor
  it stopped at.
\<close>

function dma_loop ::
  "byte list \<Rightarrow> nat \<Rightarrow> nat \<Rightarrow> int \<Rightarrow> nat \<Rightarrow> bool \<Rightarrow> MaterialSplit \<Rightarrow> error + (MaterialSplit \<times> nat)" where
  "dma_loop buf lSectionStart lDMASectionEnd idxcount pos bReachedEnd ms =
     (if pos < lDMASectionEnd \<and> \<not> bReachedEnd then
        (case read_u8 buf (pos + 3) of
           (None, pos') \<Rightarrow> Inr (ms, pos')
         | (Some bDMAId, pos1) \<Rightarrow>
        (case read_u32 buf pos1 of
           (None, _) \<Rightarrow> Inl StructError
         | (Some uiDataOffset, pos2) \<Rightarrow>
        (case read_u32 buf (pos2 + 4) of
           (None, _) \<Rightarrow> Inl StructError
         | (Some uiDataType, pos3) \<Rightarrow>
             let lDataPosition = lSectionStart + unat uiDataOffset * 16;
                 uiDataType = uiDataType AND 0xFF00FFFF
             in
               if bDMAId = 0x30 then
                 dma_loop buf lSectionStart lDMASectionEnd idxcount (pos3 + 16) bReachedEnd
                   (if uiDataType = DMATAG_VERTEX_4_INT16
                    then ms\<lparr>Vertices := Some (read_vertices buf (nat idxcount) lDataPosition []),
                            HasVertexData := True\<rparr>
                    else ms)
               else if bDMAId = 0x10 then
                 dma_loop buf lSectionStart lDMASectionEnd idxcount pos3 True ms
               else
                 dma_loop buf lSectionStart lDMASectionEnd idxcount pos3 bReachedEnd ms)))
      else Inr (ms, pos))"
  by pat_completeness auto
termination
proof (relation "measure (\<lambda>(buf, lSectionStart, lDMASectionEnd, idxcount, pos, bReachedEnd, ms).
                            if bReachedEnd then 0 else Suc (lDMASectionEnd - pos))")
qed (auto dest!: read_u8_cursor [OF sym] read_u32_cursor [OF sym])

declare dma_loop.simps [simp del]

text \<open>The body of the loop \<open>for split_idx in range(matcount)\<close>.\<close>

definition parse_split ::
  "byte list \<Rightarrow> BinMeshPlg \<Rightarrow> nat \<Rightarrow> nat \<Rightarrow> error + (MaterialSplit \<times> nat)" where
  "parse_split buf binmesh split_idx pos =
     (case read_u32 buf pos of
        (None, _) \<Rightarrow> Inl StructError
      | (Some uiSplitSize, pos1) \<Rightarrow>
          let lSectionStart = pos1 + 4 in
     (case read_u32 buf (lSectionStart + 4) of
        (None, _) \<Rightarrow> Inl StructError
      | (Some w, _) \<Rightarrow>
          let uiDMASize = unat w * 16;
              lDMASectionEnd = lSectionStart + uiDMASize;
              lSectionEnd = lSectionStart + unat uiSplitSize
          in
            if length (binMeshes binmesh) \<le> split_idx then Inl IndexError
            else
              let ms = \<lparr>ms_iMaterialIndex = iMaterialIndex (binMeshes binmesh ! split_idx),
                        Vertices = None, Triangles = [], HasVertexData = False\<rparr>
              in
     (case dma_loop buf lSectionStart lDMASectionEnd
             (iIndexCount (binMeshes binmesh ! split_idx)) lSectionStart False ms of
        Inl e \<Rightarrow> Inl e
      | Inr (ms, _) \<Rightarrow>
          let ms = (if HasVertexData ms \<and> Vertices ms \<noteq> None
                    then ms\<lparr>Triangles := reconstruct_triangles (the (Vertices ms))\<rparr>
                    else ms)
          in Inr (ms, lSectionEnd))))"

fun split_loop ::
  "byte list \<Rightarrow> BinMeshPlg \<Rightarrow> nat list \<Rightarrow> nat \<Rightarrow> MaterialSplit list \<Rightarrow> error + MaterialSplit list" where
  "split_loop buf binmesh [] pos material_splits = Inr material_splits"
| "split_loop buf binmesh (split_idx # rest) pos material_splits =
     (case parse_split buf binmesh split_idx pos of
        Inl e \<Rightarrow> Inl e
      | Inr (ms, pos') \<Rightarrow> split_loop buf binmesh rest pos' (material_splits @ [ms]))"

definition parse_native_data_plg :: "byte list \<Rightarrow> nat \<Rightarrow> BinMeshPlg \<Rightarrow> error + MaterialSplit list" where
  "parse_native_data_plg buf offset binmesh =
     (case read_i32 buf offset of
        (None, _) \<Rightarrow> Inl StructError
      | (Some sid, pos1) \<Rightarrow>
     (case read_i32 buf pos1 of
        (None, _) \<Rightarrow> Inl StructError
      | (Some iSectionSize, pos2) \<Rightarrow>
     (case read_i32 buf pos2 of
        (None, _) \<Rightarrow> Inl StructError
      | (Some iRenderWareVersion, pos3) \<Rightarrow>
     (case read_i32 buf pos3 of
        (None, _) \<Rightarrow> Inl StructError
      | (Some maybe_struct, pos4) \<Rightarrow>
          if maybe_struct \<noteq> STRUCT_ID then Inl (StructIdError pos4)
          else
     (case read_i32 buf pos4 of
        (None, _) \<Rightarrow> Inl StructError
      | (Some struct_section_size, pos5) \<Rightarrow>
     (case read_i32 buf pos5 of
        (None, _) \<Rightarrow> Inl StructError
      | (Some struct_rwv, pos6) \<Rightarrow>
          if struct_section_size = 4 then Inr []
          else
     (case read_u32 buf pos6 of
        (None, _) \<Rightarrow> Inl StructError
      | (Some uiPlatform, pos7) \<Rightarrow>
          if uiPlatform \<noteq> 0x4 then Inl (UnsupportedPlatform (unat uiPlatform))
          else
            let matcount = iMaterialSplitCount binmesh
            in split_loop buf binmesh [0..<nat matcount] pos7 [])))))))"

section \<open>The vertex entries of a split\<close>

text \<open>
  The data positions of the entries with the id \<open>0x30\<close> and the supported tag that the
  loop over the DMA entries meets, in the order it meets them. The function follows
  \<open>dma_loop\<close> step by step and records where \<open>dma_loop\<close> decodes vertices.
\<close>

function dma_vertex_entries :: "byte list \<Rightarrow> nat \<Rightarrow> nat \<Rightarrow> nat \<Rightarrow> bool \<Rightarrow> nat list" where
  "dma_vertex_entries buf lSectionStart lDMASectionEnd pos bReachedEnd =
     (if pos < lDMASectionEnd \<and> \<not> bReachedEnd then
        (case read_u8 buf (pos + 3) of
           (None, _) \<Rightarrow> []
         | (Some bDMAId, pos1) \<Rightarrow>
        (case read_u32 buf pos1 of
           (None, _) \<Rightarrow> []
         | (Some uiDataOffset, pos2) \<Rightarrow>
        (case read_u32 buf (pos2 + 4) of
           (None, _) \<Rightarrow> []
         | (Some uiDataType, pos3) \<Rightarrow>
             if bDMAId = 0x30 then
               (if uiDataType AND 0xFF00FFFF = DMATAG_VERTEX_4_INT16
                then [lSectionStart + unat uiDataOffset * 16] else [])
               @ dma_vertex_entries buf lSectionStart lDMASectionEnd (pos3 + 16) bReachedEnd
             else if bDMAId = 0x10 then
               dma_vertex_entries buf lSectionStart lDMASectionEnd pos3 True
             else
               dma_vertex_entries buf lSectionStart lDMASectionEnd pos3 bReachedEnd)))
      else [])"
  by pat_completeness auto
termination
proof (relation "measure (\<lambda>(buf, lSectionStart, lDMASectionEnd, pos, bReachedEnd).
                            if bReachedEnd then 0 else Suc (lDMASectionEnd - pos))")
qed (auto dest!: read_u8_cursor [OF sym] read_u32_cursor [OF sym])

declare dma_vertex_entries.simps [simp del]

text \<open>The split after the loop has met the vertex entries \<open>es\<close>: the last one decides.\<close>

definition after_entries :: "byte list \<Rightarrow> int \<Rightarrow> MaterialSplit \<Rightarrow> nat list \<Rightarrow> MaterialSplit" where
  "after_entries buf idxcount ms es =
     (if es = [] then ms
      else ms\<lparr>Vertices := Some (read_vertices buf (nat idxcount) (last es) []),
              HasVertexData := True\<rparr>)"


text \<open>The split as the loop over the splits creates it, before the DMA entries are read.\<close>

definition initial_split :: "BinMeshPlg \<Rightarrow> nat \<Rightarrow> MaterialSplit" where
  "initial_split binmesh split_idx =
     \<lparr>ms_iMaterialIndex = iMaterialIndex (binMeshes binmesh ! split_idx),
      Vertices = None, Triangles = [], HasVertexData = False\<rparr>"

text \<open>The vertex entries of the split block that starts at \<open>pos\<close>.\<close>

definition split_entries :: "byte list \<Rightarrow> nat \<Rightarrow> nat list" where
  "split_entries buf pos =
     (case read_u32 buf (pos + 12) of
        (None, _) \<Rightarrow> []
      | (Some w, _) \<Rightarrow> dma_vertex_entries buf (pos + 8) (pos + 8 + unat w * 16) (pos + 8) False)"

section \<open>Splits that the buffer holds\<close>

text \<open>
  The blocks of the splits \<open>split_idx # rest\<close>, the first of them at \<open>pos\<close>, are in the
  buffer: the block size and the length of the DMA stream can be read, the header has a
  split of that index, the DMA stream ends within the buffer, and the same holds for the
  next split, at the end of the block.
\<close>

fun splits_readable :: "byte list \<Rightarrow> BinMeshPlg \<Rightarrow> nat list \<Rightarrow> nat \<Rightarrow> bool" where
  "splits_readable buf binmesh [] pos = True"
| "splits_readable buf binmesh (split_idx # rest) pos =
     (case (read_u32 buf pos, read_u32 buf (pos + 12)) of
        ((Some uiSplitSize, _), (Some w, _)) \<Rightarrow>
          split_idx < length (binMeshes binmesh) \<and>
          pos + 8 + unat w * 16 \<le> length buf \<and>
          splits_readable buf binmesh rest (pos + 8 + unat uiSplitSize)
      | _ \<Rightarrow> False)"

section \<open>Example inputs\<close>

text \<open>
  One split block of a native-data section, placed at offset 0: the block size 48, four
  bytes that are skipped, and at offset 8 the DMA stream. Its first entry overlaps the
  field that holds the length of the stream (2 quadwords), which the entry reads as its
  data offset: an entry with the id \<open>0x30\<close> and the tag \<open>0x6D008000\<close>, whose data are at
  \<open>8 + 2 * 16 = 40\<close>, the vertex \<open>(256, -128, 0)\<close> with its padding.
\<close>

definition example_split :: "byte list" where
  "example_split =
     [48, 0, 0, 0,  0, 0, 0, 0,  0, 0, 0, 0x30,  2, 0, 0, 0,  0, 0, 0, 0,  0, 0x80, 0, 0x6D,
      0, 0, 0, 0,  0, 0, 0, 0,  0, 0, 0, 0,  0, 0, 0, 0,
      0, 1, 0x80, 0xFF, 0, 0, 0, 0]"

definition example_binmesh :: "int \<Rightarrow> BinMeshPlg" where
  "example_binmesh n =
     \<lparr>iMaterialSplitCount = 1,
      binMeshes = [\<lparr>iIndexCount = n, iMaterialIndex = 7, VertexIndices = None\<rparr>],
      section_size = Some 20, section_offset = Some 0\<rparr>"

text \<open>
  A split block with two vertex entries. The stream is 4 quadwords long and ends at 72.
  The first entry has its data at \<open>8 + 4 * 16 = 72\<close>: the vertex \<open>(128, 0, 0)\<close>, followed
  by eight zero bytes. The second entry, at 40, has a tag that differs from the supported
  one in the masked byte only, and its data at \<open>8 + 5 * 16 = 88\<close>: the vertex
  \<open>(0, 256, -256)\<close>, where the buffer ends.
\<close>

definition example_split2 :: "byte list" where
  "example_split2 =
     [88, 0, 0, 0,  0, 0, 0, 0,  0, 0, 0, 0x30,  4, 0, 0, 0,  0, 0, 0, 0,  0, 0x80, 0, 0x6D,
      0, 0, 0, 0,  0, 0, 0, 0,  0, 0, 0, 0,  0, 0, 0, 0,
      0, 0, 0, 0x30,  5, 0, 0, 0,  0, 0, 0, 0,  0, 0x80, 0x55, 0x6D,
      0, 0, 0, 0,  0, 0, 0, 0,  0, 0, 0, 0,  0, 0, 0, 0,
      0x80, 0, 0, 0, 0, 0, 0, 0,  0, 0, 0, 0, 0, 0, 0, 0,
      0, 0, 0, 1, 0, 0xFF, 0, 0]"

text \<open>A buffer that holds the identifier \<open>0x50E\<close> at the offsets 2 and 9.\<close>

definition example_chunk :: "byte list" where
  "example_chunk = [1, 2, 0x0E, 5, 0, 0, 7, 8, 9, 0x0E, 5, 0, 0]"



text \<open>
  The seven header fields of a native-data section: the identifier \<open>0x510\<close>, a size, a
  version, the structure marker 1, the size of the structure, its version, and the
  platform 4.
\<close>

definition example_native_header :: "byte list" where
  "example_native_header =
     [0x10, 5, 0, 0,  76, 0, 0, 0,  0, 0, 0, 0,  1, 0, 0, 0,  60, 0, 0, 0,  0, 0, 0, 0,
      4, 0, 0, 0]"

section \<open>Properties of the triangle reconstruction\<close>

lemma tri_step_candidate: "tri_step vs tris i = tris @ candidate vs i"
  by (cases "vs ! i"; cases "vs ! (i - 1)"; cases "vs ! (i - 2)")
     (simp add: tri_step_def candidate_def Let_def even_iff_mod_2_eq_zero)

lemma foldl_tri_step: "foldl (tri_step vs) acc is = acc @ concat (map (candidate vs) is)"
  by (induction "is" arbitrary: acc) (simp_all add: tri_step_candidate)

lemma reconstruct_concat:
  "reconstruct_triangles vs = concat (map (candidate vs) [2..<length vs])"
  by (simp add: reconstruct_triangles_def foldl_tri_step)

lemma upt_2_5: "[2..<5] = [2, 3, 4]"
  by (simp add: upt_rec)

lemma reconstruct_five:
  assumes "length vs = 5" and "distinct vs"
  shows "reconstruct_triangles vs = [2, 0, 1, 2, 1, 3, 4, 2, 3]"
proof -
  obtain a b c d e where vs: "vs = [a, b, c, d, e]"
    using assms(1) by (auto simp: length_Suc_conv eval_nat_numeral)
  with assms(2) show ?thesis
    by (auto simp: reconstruct_concat upt_2_5 candidate_def)
qed

text \<open>
  Claim C1. For every vertex sequence, the reconstruction goes through the indices
  \<open>2, ..., count - 1\<close> in order; at the index \<open>i\<close> it emits nothing when two of the
  vertices \<open>i\<close>, \<open>i - 1\<close>, \<open>i - 2\<close> are equal in all three coordinates, and otherwise
  \<open>(i, i - 2, i - 1)\<close> for an even \<open>i\<close> and \<open>(i - 1, i - 2, i)\<close> for an odd one. Five
  pairwise distinct vertices give the triangles \<open>(2,0,1)\<close>, \<open>(2,1,3)\<close>, \<open>(4,2,3)\<close>, and
  fewer than three vertices give no triangle.
\<close>

theorem strip_reconstructor:
  "reconstruct_triangles vs =
     concat (map (\<lambda>i. if vs ! i = vs ! (i - 1) \<or> vs ! i = vs ! (i - 2) \<or> vs ! (i - 1) = vs ! (i - 2)
                       then []
                       else if even i then [i, i - 2, i - 1] else [i - 1, i - 2, i])
                 [2..<length vs])
   \<and> (length vs = 5 \<and> distinct vs \<longrightarrow> reconstruct_triangles vs = [2, 0, 1, 2, 1, 3, 4, 2, 3])
   \<and> (length vs < 3 \<longrightarrow> reconstruct_triangles vs = [])"
proof -
  have "candidate vs = (\<lambda>i. if vs ! i = vs ! (i - 1) \<or> vs ! i = vs ! (i - 2) \<or> vs ! (i - 1) = vs ! (i - 2)
                       then []
                       else if even i then [i, i - 2, i - 1] else [i - 1, i - 2, i])"
    by (rule ext) (simp add: candidate_def)
  then have general: "reconstruct_triangles vs =
     concat (map (\<lambda>i. if vs ! i = vs ! (i - 1) \<or> vs ! i = vs ! (i - 2) \<or> vs ! (i - 1) = vs ! (i - 2)
                       then []
                       else if even i then [i, i - 2, i - 1] else [i - 1, i - 2, i])
                 [2..<length vs])"
    using reconstruct_concat [of vs] by simp
  have short: "length vs < 3 \<longrightarrow> reconstruct_triangles vs = []"
    by (auto simp: reconstruct_triangles_def less_Suc_eq eval_nat_numeral)
  from general short reconstruct_five show ?thesis
    by blast
qed

theorem strip_reconstructor_witness:
  "reconstruct_triangles [Vector 0 0 0, Vector 1 0 0, Vector 0 1 0, Vector 1 1 0, Vector 0 2 0]
     = [2, 0, 1, 2, 1, 3, 4, 2, 3]
   \<and> reconstruct_triangles [Vector 0 0 0, Vector 1 0 0] = []"
  using strip_reconstructor [of "[Vector 0 0 0, Vector 1 0 0, Vector 0 1 0, Vector 1 1 0, Vector 0 2 0]"]
        strip_reconstructor [of "[Vector 0 0 0, Vector 1 0 0]"]
  by simp

section \<open>Properties of the reader\<close>

lemma f_read_full:
  "pos + n \<le> length buf \<Longrightarrow> f_read buf pos n = (take n (drop pos buf), pos + n)"
  by (simp add: f_read_def Let_def)

lemma read_i32_cursor: "read_i32 buf pos = (Some v, pos') \<Longrightarrow> pos' = pos + 4"
  by (auto simp: read_i32_def f_read_def Let_def split: if_splits)

lemma read_i32_ok:
  "pos + 4 \<le> length buf \<Longrightarrow>
     read_i32 buf pos = (Some (to_signed 32 (le_nat (take 4 (drop pos buf)))), pos + 4)"
  by (simp add: read_i32_def f_read_full)

lemma read_u32_ok:
  "pos + 4 \<le> length buf \<Longrightarrow>
     read_u32 buf pos = (Some (word_of_nat (le_nat (take 4 (drop pos buf)))), pos + 4)"
  by (simp add: read_u32_def f_read_full)

lemma read_u8_ok: "pos < length buf \<Longrightarrow> read_u8 buf pos = (Some (buf ! pos), pos + 1)"
  by (simp add: read_u8_def f_read_full hd_drop_conv_nth)

lemma read_i32_append:
  "pos + 4 \<le> length hdr \<Longrightarrow> read_i32 (hdr @ rest) pos = read_i32 hdr pos"
  by (simp add: read_i32_def f_read_def Let_def)

lemma read_vertices_numeral:
  "read_vertices buf (numeral k) pos verts =
     (case read_vertex buf pos of
        None \<Rightarrow> verts
      | Some (v, pos') \<Rightarrow> read_vertices buf (pred_numeral k) pos' (verts @ [v]))"
  by (simp add: numeral_eq_Suc)

text \<open>The definitions that the evaluation of the decoder on a concrete buffer unfolds.\<close>

lemmas decoder_eval =
  parse_native_data_plg_def parse_split_def dma_loop.simps read_i32_def read_u32_def
  read_u8_def read_i16_def f_read_def Let_def to_signed_def STRUCT_ID_def
  DMATAG_VERTEX_4_INT16_def read_vertex_def SCALE_def reconstruct_triangles_def
  split_entries_def dma_vertex_entries.simps read_vertices_numeral initial_split_def

section \<open>The vertex decoding\<close>

lemma read_vertex_ok:
  "read_i16 buf pos = (Some x, pos + 2) \<Longrightarrow> read_i16 buf (pos + 2) = (Some y, pos + 4) \<Longrightarrow>
   read_i16 buf (pos + 4) = (Some z, pos + 6) \<Longrightarrow>
   read_vertex buf pos = Some (Vector (of_int x / 128) (of_int y / 128) (of_int z / 128), pos + 8)"
  by (simp add: read_vertex_def SCALE_def)

lemma read_vertex_example:
  "read_vertex ([0x00, 0x01, 0x80, 0xFF, 0x00, 0x00] @ pad) 0 = Some (Vector 2 (-1) 0, 8)"
  by (simp add: read_vertex_def read_i16_def f_read_def to_signed_def SCALE_def)

text \<open>
  Claim C8. A vertex is three signed 16-bit numbers, each divided by 128, and the cursor
  ends 8 bytes further: the two bytes of padding are skipped, whatever they hold and
  even when the file ends before them. The bytes of the triplet \<open>(256, -128, 0)\<close> decode
  to the point \<open>(2, -1, 0)\<close>.
\<close>

theorem vertex_decode:
  "(read_i16 buf pos = (Some x, pos + 2) \<and> read_i16 buf (pos + 2) = (Some y, pos + 4) \<and>
    read_i16 buf (pos + 4) = (Some z, pos + 6) \<longrightarrow>
      read_vertex buf pos =
        Some (Vector (of_int x / 128) (of_int y / 128) (of_int z / 128), pos + 8))
   \<and> read_vertex ([0x00, 0x01, 0x80, 0xFF, 0x00, 0x00] @ pad) 0 = Some (Vector 2 (-1) 0, 8)"
  using read_vertex_ok [of buf pos x y z] read_vertex_example [of pad] by blast

theorem vertex_decode_witness:
  "read_i16 [0x00, 0x01, 0x80, 0xFF, 0x00, 0x00, 0xAA, 0xBB] 0 = (Some 256, 2)
   \<and> read_i16 [0x00, 0x01, 0x80, 0xFF, 0x00, 0x00, 0xAA, 0xBB] 2 = (Some (-128), 4)
   \<and> read_i16 [0x00, 0x01, 0x80, 0xFF, 0x00, 0x00, 0xAA, 0xBB] 4 = (Some 0, 6)
   \<and> read_vertex [0x00, 0x01, 0x80, 0xFF, 0x00, 0x00, 0xAA, 0xBB] 0 = Some (Vector 2 (-1) 0, 8)"
  using vertex_decode [of "[0x00, 0x01, 0x80, 0xFF, 0x00, 0x00, 0xAA, 0xBB]" 0 256 "-128" 0 "[]"]
  by (simp add: read_i16_def f_read_def to_signed_def)

section \<open>The empty mesh-split header\<close>

text \<open>
  Claim C7. When the three leading fields of the header are in the buffer and the second
  one, the section size, reads as 12, \<open>parse_binmesh_plg\<close> returns the split count 0 and
  no split, whatever bytes follow the three fields.
\<close>

theorem binmesh_empty_header:
  assumes "length hdr = offset + 12" and "read_i32 hdr (offset + 4) = (Some 12, offset + 8)"
  shows "parse_binmesh_plg (hdr @ rest) offset =
           Inr \<lparr>iMaterialSplitCount = 0, binMeshes = [],
                section_size = None, section_offset = None\<rparr>"
proof -
  have a: "read_i32 (hdr @ rest) offset =
             (Some (to_signed 32 (le_nat (take 4 (drop offset hdr)))), offset + 4)"
    using assms(1) by (simp add: read_i32_append read_i32_ok)
  have b: "read_i32 (hdr @ rest) (offset + 4) = (Some 12, offset + 8)"
    using assms by (simp add: read_i32_append)
  have c: "read_i32 (hdr @ rest) (offset + 8) =
             (Some (to_signed 32 (le_nat (take 4 (drop (offset + 8) hdr)))), offset + 12)"
    using assms(1) by (simp add: read_i32_append read_i32_ok)
  show ?thesis
    by (simp add: parse_binmesh_plg_def a b c)
qed

theorem binmesh_empty_header_witness:
  "parse_binmesh_plg ([0x0E, 0x05, 0, 0, 12, 0, 0, 0, 0xFF, 0xFF, 0x03, 0x1C] @ [1, 2, 3, 4, 5]) 0 =
     Inr \<lparr>iMaterialSplitCount = 0, binMeshes = [], section_size = None, section_offset = None\<rparr>"
  using binmesh_empty_header
    [of "[0x0E, 0x05, 0, 0, 12, 0, 0, 0, 0xFF, 0xFF, 0x03, 0x1C]" 0 "[1, 2, 3, 4, 5]"]
  by (simp add: read_i32_def f_read_def to_signed_def)

section \<open>The cursor after a split\<close>

text \<open>
  Claim C5. Whenever the processing of a split returns, the cursor it leaves is the start
  of the block (8 bytes after the split's first field) plus the block size that the first
  field holds, whatever cursor the loop over the DMA entries stopped at, and the loop over
  the splits goes on from there.
\<close>

theorem split_resync:
  assumes "parse_split buf binmesh split_idx pos = Inr (ms, pos')"
  shows "(\<exists>uiSplitSize. read_u32 buf pos = (Some uiSplitSize, pos + 4)
            \<and> pos' = (pos + 8) + unat uiSplitSize)
         \<and> split_loop buf binmesh (split_idx # rest) pos material_splits =
             split_loop buf binmesh rest pos' (material_splits @ [ms])"
proof -
  from assms obtain uiSplitSize p1 where r: "read_u32 buf pos = (Some uiSplitSize, p1)"
    by (cases "read_u32 buf pos"; cases "fst (read_u32 buf pos)") (auto simp: parse_split_def)
  then have p1: "p1 = pos + 4" by (rule read_u32_cursor)
  from assms r p1 have "pos' = (pos + 8) + unat uiSplitSize"
    by (auto simp: parse_split_def Let_def split: prod.splits option.splits if_splits sum.splits)
  with r p1 assms show ?thesis by simp
qed

theorem split_resync_witness:
  "parse_split example_split (example_binmesh 1) 0 0 =
     Inr (\<lparr>ms_iMaterialIndex = 7, Vertices = Some [Vector 2 (-1) 0], Triangles = [],
           HasVertexData = True\<rparr>, 56)
   \<and> read_u32 example_split 0 = (Some 48, 4)
   \<and> split_loop example_split (example_binmesh 1) [0] 0 [] =
       Inr [\<lparr>ms_iMaterialIndex = 7, Vertices = Some [Vector 2 (-1) 0], Triangles = [],
             HasVertexData = True\<rparr>]"
  using split_resync [of example_split "example_binmesh 1" 0 0
      "\<lparr>ms_iMaterialIndex = 7, Vertices = Some [Vector 2 (-1) 0], Triangles = [],
        HasVertexData = True\<rparr>" 56 "[]" "[]"]
  by (simp add: example_split_def example_binmesh_def decoder_eval)

section \<open>The loop over the vertices\<close>

lemma read_i16_Some: "read_i16 buf pos = (Some v, pos') \<Longrightarrow> pos' = pos + 2 \<and> pos + 2 \<le> length buf"
  by (auto simp: read_i16_def f_read_def Let_def split: if_splits)

lemma read_i16_ok:
  "pos + 2 \<le> length buf \<Longrightarrow>
     read_i16 buf pos = (Some (to_signed 16 (le_nat (take 2 (drop pos buf)))), pos + 2)"
  by (simp add: read_i16_def f_read_full)

lemma read_vertex_None: "length buf < pos + 6 \<Longrightarrow> read_vertex buf pos = None"
  by (auto simp: read_vertex_def split: prod.splits option.splits dest!: read_i16_Some)

lemma read_vertex_Some: "pos + 6 \<le> length buf \<Longrightarrow> \<exists>v. read_vertex buf pos = Some (v, pos + 8)"
  by (simp add: read_vertex_def read_i16_ok)

lemma div8_step: "(8::nat) \<le> m \<Longrightarrow> m div 8 = Suc ((m - 8) div 8)"
  by (simp add: le_div_geq)

lemma read_vertices_length_acc:
  "length (read_vertices buf n pos verts) = length verts + min n ((length buf + 2 - pos) div 8)"
proof (induction n arbitrary: pos verts)
  case 0
  show ?case by simp
next
  case (Suc n)
  show ?case
  proof (cases "pos + 6 \<le> length buf")
    case False
    then have "read_vertex buf pos = None" by (simp add: read_vertex_None)
    moreover from False have "(length buf + 2 - pos) div 8 = 0" by simp
    ultimately show ?thesis by simp
  next
    case True
    then obtain v where v: "read_vertex buf pos = Some (v, pos + 8)"
      using read_vertex_Some by blast
    from True have "(length buf + 2 - pos) div 8 = Suc ((length buf + 2 - (pos + 8)) div 8)"
      using div8_step [of "length buf + 2 - pos"] by simp
    with v Suc.IH [of "pos + 8" "verts @ [v]"] show ?thesis by simp
  qed
qed

section \<open>The loop over the DMA entries\<close>

lemma dma_loop_stop:
  "\<not> (pos < dend \<and> \<not> r) \<Longrightarrow> dma_loop buf ss dend idxcount pos r ms = Inr (ms, pos)"
  by (subst dma_loop.simps) auto

lemma dma_loop_break:
  "pos < dend \<Longrightarrow> \<not> r \<Longrightarrow> read_u8 buf (pos + 3) = (None, p1) \<Longrightarrow>
     dma_loop buf ss dend idxcount pos r ms = Inr (ms, p1)"
  by (subst dma_loop.simps) simp

lemma dma_loop_raise1:
  "pos < dend \<Longrightarrow> \<not> r \<Longrightarrow> read_u8 buf (pos + 3) = (Some bDMAId, p1) \<Longrightarrow>
   read_u32 buf p1 = (None, p2) \<Longrightarrow>
     dma_loop buf ss dend idxcount pos r ms = Inl StructError"
  by (subst dma_loop.simps) simp

lemma dma_loop_raise2:
  "pos < dend \<Longrightarrow> \<not> r \<Longrightarrow> read_u8 buf (pos + 3) = (Some bDMAId, p1) \<Longrightarrow>
   read_u32 buf p1 = (Some uiDataOffset, p2) \<Longrightarrow> read_u32 buf (p2 + 4) = (None, p3) \<Longrightarrow>
     dma_loop buf ss dend idxcount pos r ms = Inl StructError"
  by (subst dma_loop.simps) simp

lemma dma_loop_step:
  assumes "pos < dend" and "\<not> r" and "read_u8 buf (pos + 3) = (Some bDMAId, p1)"
    and "read_u32 buf p1 = (Some uiDataOffset, p2)"
    and "read_u32 buf (p2 + 4) = (Some uiDataType, p3)"
  shows "dma_loop buf ss dend idxcount pos r ms =
           (if bDMAId = 0x30 then
              dma_loop buf ss dend idxcount (pos + 32) r
                (if uiDataType AND 0xFF00FFFF = DMATAG_VERTEX_4_INT16
                 then ms\<lparr>Vertices := Some (read_vertices buf (nat idxcount)
                                             (ss + unat uiDataOffset * 16) []),
                         HasVertexData := True\<rparr>
                 else ms)
            else if bDMAId = 0x10 then dma_loop buf ss dend idxcount (pos + 16) True ms
            else dma_loop buf ss dend idxcount (pos + 16) r ms)"
proof -
  have "p1 = pos + 4" using assms(3) read_u8_cursor by fastforce
  moreover have "p2 = p1 + 4" using assms(4) by (rule read_u32_cursor)
  moreover have "p3 = p2 + 4 + 4" using assms(5) by (rule read_u32_cursor)
  ultimately have p3: "p3 = pos + 16" by simp
  show ?thesis
    by (subst dma_loop.simps) (simp add: assms p3 Let_def add.commute)
qed

lemma dma_vertex_entries_stop:
  "\<not> (pos < dend \<and> \<not> r) \<Longrightarrow> dma_vertex_entries buf ss dend pos r = []"
  by (subst dma_vertex_entries.simps) auto

lemma dma_vertex_entries_break:
  "pos < dend \<Longrightarrow> \<not> r \<Longrightarrow> read_u8 buf (pos + 3) = (None, p1) \<Longrightarrow>
     dma_vertex_entries buf ss dend pos r = []"
  by (subst dma_vertex_entries.simps) simp

lemma dma_vertex_entries_step:
  assumes "pos < dend" and "\<not> r" and "read_u8 buf (pos + 3) = (Some bDMAId, p1)"
    and "read_u32 buf p1 = (Some uiDataOffset, p2)"
    and "read_u32 buf (p2 + 4) = (Some uiDataType, p3)"
  shows "dma_vertex_entries buf ss dend pos r =
           (if bDMAId = 0x30 then
              (if uiDataType AND 0xFF00FFFF = DMATAG_VERTEX_4_INT16
               then [ss + unat uiDataOffset * 16] else [])
              @ dma_vertex_entries buf ss dend (pos + 32) r
            else if bDMAId = 0x10 then dma_vertex_entries buf ss dend (pos + 16) True
            else dma_vertex_entries buf ss dend (pos + 16) r)"
proof -
  have "p1 = pos + 4" using assms(3) read_u8_cursor by fastforce
  moreover have "p2 = p1 + 4" using assms(4) by (rule read_u32_cursor)
  moreover have "p3 = p2 + 4 + 4" using assms(5) by (rule read_u32_cursor)
  ultimately have p3: "p3 = pos + 16" by simp
  show ?thesis
    by (subst dma_vertex_entries.simps) (simp add: assms p3 add.commute)
qed

lemma after_entries_Cons:
  "after_entries buf idxcount
     (ms\<lparr>Vertices := Some (read_vertices buf (nat idxcount) e []), HasVertexData := True\<rparr>) es
   = after_entries buf idxcount ms (e # es)"
  by (simp add: after_entries_def)

lemma dma_loop_result:
  "dma_loop buf ss dend idxcount pos r ms = Inr (ms', p) \<Longrightarrow>
     ms' = after_entries buf idxcount ms (dma_vertex_entries buf ss dend pos r)"
proof (induction "if r then 0 else Suc (dend - pos)" arbitrary: pos r ms rule: less_induct)
  case less
  show ?case
  proof (cases "pos < dend \<and> \<not> r")
    case False
    with less.prems show ?thesis
      by (simp add: dma_loop_stop dma_vertex_entries_stop after_entries_def)
  next
    case True
    then have run: "pos < dend" "\<not> r" by simp_all
    obtain a p1 where r1: "read_u8 buf (pos + 3) = (a, p1)" by (cases "read_u8 buf (pos + 3)")
    show ?thesis
    proof (cases a)
      case None
      with run r1 less.prems show ?thesis
        by (simp add: dma_loop_break dma_vertex_entries_break after_entries_def)
    next
      case (Some bDMAId)
      note id = r1 [unfolded Some]
      obtain b p2 where r2: "read_u32 buf p1 = (b, p2)" by (cases "read_u32 buf p1")
      show ?thesis
      proof (cases b)
        case None
        with run id r2 less.prems show ?thesis
          by (simp add: dma_loop_raise1)
      next
        case (Some uiDataOffset)
        note off = r2 [unfolded Some]
        obtain c p3 where r3: "read_u32 buf (p2 + 4) = (c, p3)"
          by (cases "read_u32 buf (p2 + 4)")
        show ?thesis
        proof (cases c)
          case None
          with run id off r3 less.prems show ?thesis
            by (simp add: dma_loop_raise2)
        next
          case (Some uiDataType)
          note ty = r3 [unfolded Some]
          note step = dma_loop_step [OF run id off ty, of ss idxcount ms]
          note estep = dma_vertex_entries_step [OF run id off ty, of ss]
          have m32: "(if r then 0 else Suc (dend - (pos + 32))) < (if r then 0 else Suc (dend - pos))"
            using run by simp
          have m16: "(if r then 0 else Suc (dend - (pos + 16))) < (if r then 0 else Suc (dend - pos))"
            using run by simp
          have mT: "(if True then 0 else Suc (dend - (pos + 16))) < (if r then 0 else Suc (dend - pos))"
            using run by simp
          consider (vertex) "bDMAId = 0x30" "uiDataType AND 0xFF00FFFF = DMATAG_VERTEX_4_INT16"
            | (skipped) "bDMAId = 0x30" "uiDataType AND 0xFF00FFFF \<noteq> DMATAG_VERTEX_4_INT16"
            | (stop) "bDMAId \<noteq> 0x30" "bDMAId = 0x10"
            | (other) "bDMAId \<noteq> 0x30" "bDMAId \<noteq> 0x10" by blast
          then show ?thesis
          proof cases
            case vertex
            with less.prems step have
              "dma_loop buf ss dend idxcount (pos + 32) r
                 (ms\<lparr>Vertices := Some (read_vertices buf (nat idxcount)
                                         (ss + unat uiDataOffset * 16) []),
                     HasVertexData := True\<rparr>) = Inr (ms', p)"
              by simp
            from less.hyps [OF m32 this] vertex estep show ?thesis
              by (simp add: after_entries_Cons)
          next
            case skipped
            with less.prems step have
              "dma_loop buf ss dend idxcount (pos + 32) r ms = Inr (ms', p)" by simp
            from less.hyps [OF m32 this] skipped estep show ?thesis by simp
          next
            case stop
            with less.prems step have
              "dma_loop buf ss dend idxcount (pos + 16) True ms = Inr (ms', p)" by simp
            from less.hyps [OF mT this] stop estep show ?thesis by simp
          next
            case other
            with less.prems step have
              "dma_loop buf ss dend idxcount (pos + 16) r ms = Inr (ms', p)" by simp
            from less.hyps [OF m16 this] other estep show ?thesis by simp
          qed
        qed
      qed
    qed
  qed
qed


section \<open>The processing of one split\<close>

lemma parse_split_unfold:
  "parse_split buf bm i pos =
     (case read_u32 buf pos of
        (None, _) \<Rightarrow> Inl StructError
      | (Some sz, _) \<Rightarrow>
     (case read_u32 buf (pos + 12) of
        (None, _) \<Rightarrow> Inl StructError
      | (Some w, _) \<Rightarrow>
          if length (binMeshes bm) \<le> i then Inl IndexError
          else
     (case dma_loop buf (pos + 8) (pos + 8 + unat w * 16) (iIndexCount (binMeshes bm ! i))
             (pos + 8) False (initial_split bm i) of
        Inl e \<Rightarrow> Inl e
      | Inr (ms1, _) \<Rightarrow>
          Inr (if HasVertexData ms1 \<and> Vertices ms1 \<noteq> None
               then ms1\<lparr>Triangles := reconstruct_triangles (the (Vertices ms1))\<rparr> else ms1,
               pos + 8 + unat sz))))"
proof -
  obtain a p1 where r1: "read_u32 buf pos = (a, p1)" by (cases "read_u32 buf pos")
  show ?thesis
  proof (cases a)
    case None
    then show ?thesis by (simp add: parse_split_def r1)
  next
    case (Some sz)
    with r1 have "p1 = pos + 4" using read_u32_cursor by blast
    then have e: "p1 + 4 + 4 = pos + 12" "p1 + 4 = pos + 8" "pos + 8 + 4 = pos + 12"
      by simp_all
    show ?thesis
      by (simp only: parse_split_def r1 Some prod.case option.case Let_def e initial_split_def)
  qed
qed

lemma parse_split_cases:
  assumes "parse_split buf bm i pos = Inr (ms, pos')"
  obtains sz w p2 ms1 p where
    "read_u32 buf pos = (Some sz, pos + 4)"
    "read_u32 buf (pos + 12) = (Some w, p2)"
    "i < length (binMeshes bm)"
    "dma_loop buf (pos + 8) (pos + 8 + unat w * 16) (iIndexCount (binMeshes bm ! i))
       (pos + 8) False (initial_split bm i) = Inr (ms1, p)"
    "ms = (if HasVertexData ms1 \<and> Vertices ms1 \<noteq> None
           then ms1\<lparr>Triangles := reconstruct_triangles (the (Vertices ms1))\<rparr> else ms1)"
    "pos' = pos + 8 + unat sz"
proof -
  note u = assms [unfolded parse_split_unfold]
  obtain a p1 where r1: "read_u32 buf pos = (a, p1)" by (cases "read_u32 buf pos")
  with u obtain sz where a: "a = Some sz" by (cases a) simp_all
  from r1 a have p1: "p1 = pos + 4" using read_u32_cursor by blast
  obtain b p2 where r2: "read_u32 buf (pos + 12) = (b, p2)" by (cases "read_u32 buf (pos + 12)")
  with u r1 a obtain w where b: "b = Some w" by (cases b) simp_all
  from u r1 a r2 b have i: "i < length (binMeshes bm)"
    by (simp split: if_splits)
  let ?d = "dma_loop buf (pos + 8) (pos + 8 + unat w * 16) (iIndexCount (binMeshes bm ! i))
       (pos + 8) False (initial_split bm i)"
  from u r1 a r2 b i obtain ms1 p where d: "?d = Inr (ms1, p)"
    by (cases ?d) auto
  from u r1 a r2 b i d have
    "ms = (if HasVertexData ms1 \<and> Vertices ms1 \<noteq> None
           then ms1\<lparr>Triangles := reconstruct_triangles (the (Vertices ms1))\<rparr> else ms1)"
    "pos' = pos + 8 + unat sz"
    by simp_all
  with r1 a p1 r2 b i d that show thesis by blast
qed

lemma parse_split_result:
  assumes "parse_split buf bm i pos = Inr (ms, pos')"
  shows "ms = (case split_entries buf pos of
                 [] \<Rightarrow> initial_split bm i
               | e # es \<Rightarrow>
                   (let verts = read_vertices buf (nat (iIndexCount (binMeshes bm ! i)))
                                  (last (e # es)) []
                    in \<lparr>ms_iMaterialIndex = iMaterialIndex (binMeshes bm ! i),
                        Vertices = Some verts, Triangles = reconstruct_triangles verts,
                        HasVertexData = True\<rparr>))"
proof -
  from assms obtain sz w p2 ms1 p where
    r2: "read_u32 buf (pos + 12) = (Some w, p2)"
    and d: "dma_loop buf (pos + 8) (pos + 8 + unat w * 16) (iIndexCount (binMeshes bm ! i))
       (pos + 8) False (initial_split bm i) = Inr (ms1, p)"
    and ms: "ms = (if HasVertexData ms1 \<and> Vertices ms1 \<noteq> None
           then ms1\<lparr>Triangles := reconstruct_triangles (the (Vertices ms1))\<rparr> else ms1)"
    by (rule parse_split_cases)
  from r2 have e: "split_entries buf pos =
      dma_vertex_entries buf (pos + 8) (pos + 8 + unat w * 16) (pos + 8) False"
    by (simp add: split_entries_def)
  from dma_loop_result [OF d] e have
    "ms1 = after_entries buf (iIndexCount (binMeshes bm ! i)) (initial_split bm i)
             (split_entries buf pos)" by simp
  with ms show ?thesis
    by (cases "split_entries buf pos") (simp_all add: after_entries_def initial_split_def Let_def)
qed


section \<open>Several vertex entries in one split\<close>

text \<open>
  Claim C10. When the loop over the DMA entries of a split meets one or more entries with
  the id \<open>0x30\<close> and the supported tag, the vertex list of the split that is returned is
  the list decoded at the data position of the last of them: every such entry replaces
  the list as a whole.
\<close>

theorem last_vertex_entry_wins:
  assumes "parse_split buf bm i pos = Inr (ms, pos')" and "split_entries buf pos \<noteq> []"
  shows "Vertices ms =
           Some (read_vertices buf (nat (iIndexCount (binMeshes bm ! i)))
                   (last (split_entries buf pos)) [])"
  using parse_split_result [OF assms(1)] assms(2)
  by (cases "split_entries buf pos") (simp_all add: Let_def)

theorem last_vertex_entry_wins_witness:
  "parse_split example_split2 (example_binmesh 2) 0 0 =
     Inr (\<lparr>ms_iMaterialIndex = 7, Vertices = Some [Vector 0 2 (-2)], Triangles = [],
           HasVertexData = True\<rparr>, 96)
   \<and> split_entries example_split2 0 = [72, 88]
   \<and> read_vertices example_split2 2 72 [] = [Vector 1 0 0, Vector 0 0 0]
   \<and> read_vertices example_split2 2 88 [] = [Vector 0 2 (-2)]"
  using last_vertex_entry_wins [of example_split2 "example_binmesh 2" 0 0
      "\<lparr>ms_iMaterialIndex = 7, Vertices = Some [Vector 0 2 (-2)], Triangles = [],
        HasVertexData = True\<rparr>" 96]
  by (simp add: example_split2_def example_binmesh_def decoder_eval)

section \<open>A split whose index count is not positive\<close>

lemma reconstruct_Nil: "reconstruct_triangles [] = []"
  by (simp add: reconstruct_triangles_def)

text \<open>
  Claim C9. When the index count of a split is zero or negative, a vertex entry makes the
  loop go on with an empty vertex list (the second part: the step over such an entry is
  the loop from the next entry on, with \<open>Vertices\<close> set to the empty list), and a split
  that met such an entry is returned with no vertex and no triangle.
\<close>

theorem nonpositive_index_count:
  "(parse_split buf bm i pos = Inr (ms, pos') \<and> split_entries buf pos \<noteq> [] \<and>
      iIndexCount (binMeshes bm ! i) \<le> 0
      \<longrightarrow> Vertices ms = Some [] \<and> Triangles ms = [])
   \<and> (idxcount \<le> 0 \<and> p < dend \<and> read_u8 buf (p + 3) = (Some 0x30, p1) \<and>
        read_u32 buf p1 = (Some uiDataOffset, p2) \<and>
        read_u32 buf (p2 + 4) = (Some uiDataType, p3) \<and>
        uiDataType AND 0xFF00FFFF = DMATAG_VERTEX_4_INT16
      \<longrightarrow> dma_loop buf ss dend idxcount p False ms0 =
            dma_loop buf ss dend idxcount (p + 32) False
              (ms0\<lparr>Vertices := Some [], HasVertexData := True\<rparr>))"
proof (intro conjI impI)
  assume a: "parse_split buf bm i pos = Inr (ms, pos') \<and> split_entries buf pos \<noteq> [] \<and>
      iIndexCount (binMeshes bm ! i) \<le> 0"
  then have n: "nat (iIndexCount (binMeshes bm ! i)) = 0" by simp
  from a have r: "parse_split buf bm i pos = Inr (ms, pos')" by simp
  from a parse_split_result [OF r] n show "Vertices ms = Some []"
    by (cases "split_entries buf pos") (simp_all add: Let_def)
  from a parse_split_result [OF r] n show "Triangles ms = []"
    by (cases "split_entries buf pos") (simp_all add: Let_def reconstruct_Nil)
next
  assume a: "idxcount \<le> 0 \<and> p < dend \<and> read_u8 buf (p + 3) = (Some 0x30, p1) \<and>
        read_u32 buf p1 = (Some uiDataOffset, p2) \<and>
        read_u32 buf (p2 + 4) = (Some uiDataType, p3) \<and>
        uiDataType AND 0xFF00FFFF = DMATAG_VERTEX_4_INT16"
  then have n: "nat idxcount = 0" by simp
  from a have "dma_loop buf ss dend idxcount p False ms0 =
      dma_loop buf ss dend idxcount (p + 32) False
        (ms0\<lparr>Vertices := Some (read_vertices buf (nat idxcount) (ss + unat uiDataOffset * 16) []),
             HasVertexData := True\<rparr>)"
    using dma_loop_step [of p dend False buf "0x30" p1 uiDataOffset p2 uiDataType p3 ss idxcount ms0]
    by simp
  with n show "dma_loop buf ss dend idxcount p False ms0 =
            dma_loop buf ss dend idxcount (p + 32) False
              (ms0\<lparr>Vertices := Some [], HasVertexData := True\<rparr>)"
    by simp
qed

theorem nonpositive_index_count_witness:
  "parse_split example_split (example_binmesh (-3)) 0 0 =
     Inr (\<lparr>ms_iMaterialIndex = 7, Vertices = Some [], Triangles = [],
           HasVertexData = True\<rparr>, 56)
   \<and> split_entries example_split 0 = [40]"
  using nonpositive_index_count [where buf = example_split and bm = "example_binmesh (-3)"
      and i = 0 and pos = 0 and pos' = 56 and idxcount = "-3" and p = 8 and dend = 40
      and ?p1.0 = 12 and uiDataOffset = 2 and ?p2.0 = 16 and uiDataType = "0x6D008000"
      and ?p3.0 = 24 and ss = 8
      and ms = "\<lparr>ms_iMaterialIndex = 7, Vertices = Some [], Triangles = [],
                HasVertexData = True\<rparr>"
      and ?ms0.0 = "\<lparr>ms_iMaterialIndex = 7, Vertices = None, Triangles = [],
                    HasVertexData = False\<rparr>"]
  by (simp add: example_split_def example_binmesh_def decoder_eval)

section \<open>The number of vertices of a split\<close>

text \<open>
  The index count of a split is a field of four bytes. The parser reads it as a signed
  number; read as an unsigned number, the same four bytes are never less than the
  non-negative part of the signed reading.
\<close>

lemma le_nat_bound: "le_nat bs < 256 ^ length bs"
proof (induction bs)
  case Nil
  show ?case by simp
next
  case (Cons b bs)
  have "unat b < 2 ^ LENGTH(8)" by (rule unsigned_less)
  then have b: "unat b < 256" by simp
  from Cons have "le_nat bs + 1 \<le> 256 ^ length bs" by simp
  then have "256 * (le_nat bs + 1) \<le> 256 * 256 ^ length bs" by (rule mult_le_mono2)
  with b show ?case by simp
qed

lemma signed_unsigned_field:
  assumes "read_i32 buf q = (Some v, p)" and "read_u32 buf q = (Some w, p')"
  shows "v = to_signed 32 (unat w) \<and> nat v \<le> unat w"
proof -
  let ?bs = "take 4 (drop q buf)"
  from assms(1) have l: "length ?bs = 4" and v: "v = to_signed 32 (le_nat ?bs)"
    by (auto simp: read_i32_def f_read_def Let_def split: if_splits)
  from assms(2) have w: "w = word_of_nat (le_nat ?bs)"
    by (auto simp: read_u32_def f_read_def Let_def split: if_splits)
  from le_nat_bound [of ?bs] l have "le_nat ?bs < 2 ^ 32" by simp
  then have u: "unat w = le_nat ?bs" unfolding w by (simp add: unat_of_nat)
  have "nat (to_signed 32 (le_nat ?bs)) \<le> le_nat ?bs"
    by (simp add: to_signed_def, arith)
  with u v show ?thesis by simp
qed

text \<open>
  Claim C6. The vertex list of a split is never longer than the index count declared in
  the split's four-byte field. The decoder uses the signed reading of the field: the list
  is at most as long as that reading when it is not negative, and empty when it is
  negative, where the declared unsigned value is at least \<open>2 ^ 31\<close>. The length is the
  smaller of the count and the number of whole vertices (8 bytes each, the last two of
  which may be missing) between the data position and the end of the buffer: a read that
  runs out of bytes ends the decoding and keeps the vertices read before it.
\<close>

theorem vertex_count_bound:
  assumes "parse_split buf bm i pos = Inr (ms, pos')" and "Vertices ms = Some verts"
    and "read_i32 hdr q = (Some (iIndexCount (binMeshes bm ! i)), q + 4)"
    and "read_u32 hdr q = (Some indexCount, q + 4)"
  shows "length verts \<le> unat indexCount
         \<and> int (length verts) \<le> max 0 (iIndexCount (binMeshes bm ! i))
         \<and> length verts = min (nat (iIndexCount (binMeshes bm ! i)))
                              ((length buf + 2 - last (split_entries buf pos)) div 8)"
proof -
  from parse_split_result [OF assms(1)] assms(2)
  have v: "verts = read_vertices buf (nat (iIndexCount (binMeshes bm ! i)))
                     (last (split_entries buf pos)) []"
    by (cases "split_entries buf pos") (auto simp: Let_def initial_split_def)
  then have l: "length verts = min (nat (iIndexCount (binMeshes bm ! i)))
                              ((length buf + 2 - last (split_entries buf pos)) div 8)"
    by (simp add: read_vertices_length_acc)
  have u: "nat (iIndexCount (binMeshes bm ! i)) \<le> unat indexCount"
    using signed_unsigned_field [OF assms(3,4)] by blast
  from l have n: "length verts \<le> nat (iIndexCount (binMeshes bm ! i))" by simp
  from n u have a: "length verts \<le> unat indexCount" by (rule order_trans)
  from n have b: "int (length verts) \<le> max 0 (iIndexCount (binMeshes bm ! i))" by arith
  from a b l show ?thesis by blast
qed

theorem vertex_count_bound_witness:
  "parse_split example_split2 (example_binmesh 2) 0 0 =
     Inr (\<lparr>ms_iMaterialIndex = 7, Vertices = Some [Vector 0 2 (-2)], Triangles = [],
           HasVertexData = True\<rparr>, 96)
   \<and> read_i32 [2, 0, 0, 0] 0 = (Some 2, 4) \<and> read_u32 [2, 0, 0, 0] 0 = (Some 2, 4)
   \<and> length [Vector 0 2 (-2)] = min 2 ((length example_split2 + 2 - 88) div 8)
   \<and> parse_split example_split (example_binmesh (-1)) 0 0 =
     Inr (\<lparr>ms_iMaterialIndex = 7, Vertices = Some [], Triangles = [],
           HasVertexData = True\<rparr>, 56)
   \<and> read_i32 [0xFF, 0xFF, 0xFF, 0xFF] 0 = (Some (-1), 4)
   \<and> read_u32 [0xFF, 0xFF, 0xFF, 0xFF] 0 = (Some 0xFFFFFFFF, 4)"
  using vertex_count_bound [of example_split2 "example_binmesh 2" 0 0
      "\<lparr>ms_iMaterialIndex = 7, Vertices = Some [Vector 0 2 (-2)], Triangles = [],
        HasVertexData = True\<rparr>" 96 "[Vector 0 2 (-2)]" "[2, 0, 0, 0]" 0 2]
    vertex_count_bound [of example_split "example_binmesh (-1)" 0 0
      "\<lparr>ms_iMaterialIndex = 7, Vertices = Some [], Triangles = [],
        HasVertexData = True\<rparr>" 56 "[]" "[0xFF, 0xFF, 0xFF, 0xFF]" 0 "0xFFFFFFFF"]
  by (simp add: example_split2_def example_split_def example_binmesh_def decoder_eval)

section \<open>The chunk locator\<close>

lemma bytes_find_Some:
  "bytes_find chunk pattern start = Some idx \<Longrightarrow>
     start \<le> idx \<and> occurs_at chunk pattern idx \<and>
     (\<forall>k. start \<le> k \<and> k < idx \<longrightarrow> \<not> occurs_at chunk pattern k)"
proof (induction chunk pattern start rule: bytes_find.induct)
  case (1 chunk pattern start)
  show ?case
  proof (cases "length chunk < start + length pattern")
    case True
    with "1.prems" show ?thesis by (simp add: bytes_find.simps [of chunk pattern start])
  next
    case False
    show ?thesis
    proof (cases "take (length pattern) (drop start chunk) = pattern")
      case True
      with False "1.prems" have "idx = start"
        by (simp add: bytes_find.simps [of chunk pattern start])
      with True False show ?thesis by (auto simp: occurs_at_def)
    next
      case differs: False
      with False "1.prems" have "bytes_find chunk pattern (Suc start) = Some idx"
        by (simp add: bytes_find.simps [of chunk pattern start])
      note ih = "1.IH" [OF False differs this]
      have first: "\<not> occurs_at chunk pattern start"
        using differs by (simp add: occurs_at_def)
      have "\<not> occurs_at chunk pattern k" if "start \<le> k \<and> k < idx" for k
      proof (cases "k = start")
        case True
        with first show ?thesis by simp
      next
        case False
        with that have "Suc start \<le> k \<and> k < idx" by simp
        with ih show ?thesis by blast
      qed
      with ih show ?thesis by auto
    qed
  qed
qed

lemma bytes_find_None:
  "bytes_find chunk pattern start = None \<Longrightarrow> start \<le> k \<Longrightarrow> \<not> occurs_at chunk pattern k"
proof (induction chunk pattern start rule: bytes_find.induct)
  case (1 chunk pattern start)
  show ?case
  proof (cases "length chunk < start + length pattern")
    case True
    with "1.prems" show ?thesis by (simp add: occurs_at_def)
  next
    case False
    show ?thesis
    proof (cases "take (length pattern) (drop start chunk) = pattern")
      case True
      with False "1.prems" show ?thesis
        by (simp add: bytes_find.simps [of chunk pattern start])
    next
      case differs: False
      with False "1.prems" have n: "bytes_find chunk pattern (Suc start) = None"
        by (simp add: bytes_find.simps [of chunk pattern start])
      show ?thesis
      proof (cases "k = start")
        case True
        with differs show ?thesis by (simp add: occurs_at_def)
      next
        case False
        with "1.prems" have "Suc start \<le> k" by simp
        from "1.IH" [OF \<open>\<not> length chunk < start + length pattern\<close> differs n this]
        show ?thesis .
      qed
    qed
  qed
qed

lemma find_loop_acc:
  "find_loop chunk pattern start acc = acc @ find_loop chunk pattern start []"
proof (induction "length chunk + 4 - start" arbitrary: start acc rule: less_induct)
  case less
  show ?case
  proof (cases "bytes_find chunk pattern start")
    case None
    then show ?thesis by (simp add: find_loop.simps [of chunk pattern start])
  next
    case (Some idx)
    then have "length chunk + 4 - (idx + 4) < length chunk + 4 - start"
      using bytes_find_bounds [OF Some] by auto
    from less [OF this, of "acc @ [idx]"] less [OF this, of "[idx]"] Some show ?thesis
      by (simp add: find_loop.simps [of chunk pattern start])
  qed
qed

lemma find_loop_Nil:
  "find_loop chunk pattern start [] =
     (case bytes_find chunk pattern start of
        None \<Rightarrow> []
      | Some idx \<Rightarrow> idx # find_loop chunk pattern (idx + 4) [])"
  using find_loop_acc [of chunk pattern _ "[_]"]
  by (simp add: find_loop.simps [of chunk pattern start "[]"] split: option.splits)

lemma find_loop_props:
  "sorted_wrt (\<lambda>a b. a + 4 \<le> b) (find_loop chunk pattern start []) \<and>
   (\<forall>m \<in> set (find_loop chunk pattern start []). start \<le> m \<and> occurs_at chunk pattern m) \<and>
   (\<forall>k. start \<le> k \<and> occurs_at chunk pattern k \<longrightarrow>
        (\<exists>m \<in> set (find_loop chunk pattern start []). m \<le> k \<and> k < m + 4))"
proof (induction "length chunk + 4 - start" arbitrary: start rule: less_induct)
  case less
  show ?case
  proof (cases "bytes_find chunk pattern start")
    case None
    then show ?thesis
      using bytes_find_None [OF None] by (simp add: find_loop_Nil)
  next
    case (Some idx)
    note f = bytes_find_Some [OF Some]
    have "length chunk + 4 - (idx + 4) < length chunk + 4 - start"
      using bytes_find_bounds [OF Some] by auto
    note ih = less [OF this]
    have eq: "find_loop chunk pattern start [] = idx # find_loop chunk pattern (idx + 4) []"
      using Some by (simp add: find_loop_Nil)
    have s: "sorted_wrt (\<lambda>a b. a + 4 \<le> b) (find_loop chunk pattern start [])"
      using ih by (simp add: eq)
    have m: "\<forall>m \<in> set (find_loop chunk pattern start []). start \<le> m \<and> occurs_at chunk pattern m"
      using ih f by (auto simp: eq)
    have c: "\<forall>k. start \<le> k \<and> occurs_at chunk pattern k \<longrightarrow>
        (\<exists>m \<in> set (find_loop chunk pattern start []). m \<le> k \<and> k < m + 4)"
    proof (intro allI impI)
      fix k assume k: "start \<le> k \<and> occurs_at chunk pattern k"
      with f have "idx \<le> k" by (meson not_less)
      show "\<exists>m \<in> set (find_loop chunk pattern start []). m \<le> k \<and> k < m + 4"
      proof (cases "k < idx + 4")
        case True
        with \<open>idx \<le> k\<close> show ?thesis by (simp add: eq)
      next
        case False
        then have "idx + 4 \<le> k" by simp
        with ih k obtain m where "m \<in> set (find_loop chunk pattern (idx + 4) [])" "m \<le> k" "k < m + 4"
          by blast
        then show ?thesis by (auto simp: eq)
      qed
    qed
    from s m c show ?thesis by blast
  qed
qed


lemma pack_i32_length: "pack_i32 v = Inr pattern \<Longrightarrow> length pattern = 4"
  by (auto simp: pack_i32_def split: if_splits)

text \<open>
  Claim C4. For every buffer and every identifier that fits 32 bits, with \<open>pattern\<close> its
  four bytes, \<open>find_chunk_positions\<close> returns the offsets of the scan that restarts 4
  bytes after each match: they are ascending and at least 4 apart, the pattern occurs at
  each of them, and every occurrence of the pattern is one of them or lies less than 4
  bytes after one of them (so the first result is the first occurrence, and each next one
  the first occurrence from 4 bytes after the one before). The result is empty exactly
  when the pattern occurs nowhere, and when no two occurrences overlap it holds exactly
  the occurrences.
\<close>

theorem chunk_locator:
  assumes "pack_i32 target_id = Inr pattern"
  shows "find_chunk_positions f target_id = Inr (find_loop f pattern 0 [])
    \<and> sorted_wrt (\<lambda>a b. a + 4 \<le> b) (find_loop f pattern 0 [])
    \<and> (\<forall>m \<in> set (find_loop f pattern 0 []). occurs_at f pattern m)
    \<and> (\<forall>k. occurs_at f pattern k \<longrightarrow>
          (\<exists>m \<in> set (find_loop f pattern 0 []). m \<le> k \<and> k < m + 4))
    \<and> (find_loop f pattern 0 [] = [] \<longleftrightarrow> (\<forall>k. \<not> occurs_at f pattern k))
    \<and> ((\<forall>j k. occurs_at f pattern j \<and> occurs_at f pattern k \<and> j < k \<longrightarrow> j + 4 \<le> k)
          \<longrightarrow> set (find_loop f pattern 0 []) = {k. occurs_at f pattern k})"
proof -
  let ?ms = "find_loop f pattern 0 []"
  note p = find_loop_props [of f pattern 0]
  have r: "find_chunk_positions f target_id = Inr ?ms"
    using assms by (simp add: find_chunk_positions_def f_read_def)
  have s: "sorted_wrt (\<lambda>a b. a + 4 \<le> b) ?ms" using p by simp
  have m: "\<forall>m \<in> set ?ms. occurs_at f pattern m" using p by simp
  have c: "\<forall>k. occurs_at f pattern k \<longrightarrow> (\<exists>m \<in> set ?ms. m \<le> k \<and> k < m + 4)"
    using p by simp
  have e: "?ms = [] \<longleftrightarrow> (\<forall>k. \<not> occurs_at f pattern k)"
  proof
    assume "?ms = []"
    with c show "\<forall>k. \<not> occurs_at f pattern k" by auto
  next
    assume n: "\<forall>k. \<not> occurs_at f pattern k"
    show "?ms = []"
    proof (cases ?ms)
      case Nil
      then show ?thesis .
    next
      case (Cons a as)
      with m have "occurs_at f pattern a" by simp
      with n show ?thesis by simp
    qed
  qed
  have d: "(\<forall>j k. occurs_at f pattern j \<and> occurs_at f pattern k \<and> j < k \<longrightarrow> j + 4 \<le> k)
          \<longrightarrow> set ?ms = {k. occurs_at f pattern k}"
  proof
    assume apart: "\<forall>j k. occurs_at f pattern j \<and> occurs_at f pattern k \<and> j < k \<longrightarrow> j + 4 \<le> k"
    show "set ?ms = {k. occurs_at f pattern k}"
    proof (intro equalityI subsetI)
      fix x assume "x \<in> set ?ms"
      with m show "x \<in> {k. occurs_at f pattern k}" by simp
    next
      fix k assume "k \<in> {k. occurs_at f pattern k}"
      then have k: "occurs_at f pattern k" by simp
      with c obtain m' where m': "m' \<in> set ?ms" "m' \<le> k" "k < m' + 4" by blast
      with m have "occurs_at f pattern m'" by simp
      with apart k m' have "m' = k"
        by (metis le_neq_implies_less not_less)
      with m' show "k \<in> set ?ms" by simp
    qed
  qed
  from r s m c e d show ?thesis by blast
qed

theorem chunk_locator_witness:
  "find_chunk_positions example_chunk 0x50E = Inr [2, 9]
   \<and> occurs_at example_chunk [0x0E, 5, 0, 0] 2 \<and> occurs_at example_chunk [0x0E, 5, 0, 0] 9
   \<and> find_loop [0, 0, 0, 0, 0, 0, 0, 0, 0] [0, 0, 0, 0] 0 [] = [0, 4]"
proof -
  have p: "pack_i32 0x50E = Inr [0x0E, 5, 0, 0]"
    by (simp add: pack_i32_def)
  have e: "find_loop example_chunk [0x0E, 5, 0, 0] 0 [] = [2, 9]"
    by (simp add: example_chunk_def find_loop.simps bytes_find.simps)
  have z: "find_loop [0, 0, 0, 0, 0, 0, 0, 0, 0] [0, 0, 0, 0] 0 [] = [0, 4]"
    by (simp add: find_loop.simps bytes_find.simps)
  from chunk_locator [OF p, of example_chunk]
  have "find_chunk_positions example_chunk 0x50E =
          Inr (find_loop example_chunk [0x0E, 5, 0, 0] 0 [])"
    and "\<forall>m \<in> set (find_loop example_chunk [0x0E, 5, 0, 0] 0 []).
          occurs_at example_chunk [0x0E, 5, 0, 0] m"
    by blast+
  with z show ?thesis by (simp add: e)
qed

section \<open>The explicit index lists of the mesh-split header\<close>















section \<open>The errors of the native geometry decoder\<close>

lemma read_u8_past_end: "length buf \<le> pos \<Longrightarrow> read_u8 buf pos = (None, pos)"
  by (simp add: read_u8_def f_read_def Let_def)

lemma read_u32_Some: "read_u32 buf pos = (Some w, p) \<Longrightarrow> p = pos + 4 \<and> pos + 4 \<le> length buf"
  by (auto simp: read_u32_def f_read_def Let_def split: if_splits)

lemma read_i32_Some: "read_i32 buf pos = (Some v, p) \<Longrightarrow> p = pos + 4 \<and> pos + 4 \<le> length buf"
  by (auto simp: read_i32_def f_read_def Let_def split: if_splits)

lemma dma_loop_total:
  "dend = ss + 16 * k \<Longrightarrow> pos = ss + 16 * j \<Longrightarrow> dend \<le> length buf \<Longrightarrow>
     \<exists>ms' p. dma_loop buf ss dend idxcount pos r ms = Inr (ms', p)"
proof (induction "if r then 0 else Suc (dend - pos)" arbitrary: pos j r ms rule: less_induct)
  case less
  show ?case
  proof (cases "pos < dend \<and> \<not> r")
    case False
    then show ?thesis by (simp add: dma_loop_stop)
  next
    case True
    then have run: "pos < dend" "\<not> r" by simp_all
    with less.prems have "j < k" by simp
    then have "pos + 16 \<le> dend" using less.prems by simp
    with less.prems have fits: "pos + 16 \<le> length buf" by simp
    then have r1: "read_u8 buf (pos + 3) = (Some (buf ! (pos + 3)), pos + 3 + 1)"
      by (intro read_u8_ok) simp
    from fits have r2: "read_u32 buf (pos + 3 + 1) =
        (Some (word_of_nat (le_nat (take 4 (drop (pos + 3 + 1) buf)))), pos + 3 + 1 + 4)"
      by (intro read_u32_ok) simp
    from fits have r3: "read_u32 buf (pos + 3 + 1 + 4 + 4) =
        (Some (word_of_nat (le_nat (take 4 (drop (pos + 3 + 1 + 4 + 4) buf)))),
         pos + 3 + 1 + 4 + 4 + 4)"
      by (intro read_u32_ok) simp
    note step = dma_loop_step [OF run r1 r2 r3, of ss idxcount ms]
    have p32: "pos + 32 = ss + 16 * (j + 2)" and p16: "pos + 16 = ss + 16 * (j + 1)"
      using less.prems by simp_all
    have m32: "(if r then 0 else Suc (dend - (pos + 32))) < (if r then 0 else Suc (dend - pos))"
      using run by simp
    have m16: "(if r then 0 else Suc (dend - (pos + 16))) < (if r then 0 else Suc (dend - pos))"
      using run by simp
    have mT: "(if True then 0 else Suc (dend - (pos + 16))) < (if r then 0 else Suc (dend - pos))"
      using run by simp
    from less.hyps [OF m32 less.prems(1) p32 less.prems(3)]
         less.hyps [OF m16 less.prems(1) p16 less.prems(3)]
         less.hyps [OF mT less.prems(1) p16 less.prems(3)]
    show ?thesis by (simp add: step)
  qed
qed

lemma dma_loop_error:
  "dma_loop buf ss dend idxcount pos r ms = Inl e \<Longrightarrow> e = StructError"
proof (induction "if r then 0 else Suc (dend - pos)" arbitrary: pos r ms rule: less_induct)
  case less
  show ?case
  proof (cases "pos < dend \<and> \<not> r")
    case False
    with less.prems show ?thesis by (simp add: dma_loop_stop)
  next
    case True
    then have run: "pos < dend" "\<not> r" by simp_all
    obtain a p1 where r1: "read_u8 buf (pos + 3) = (a, p1)" by (cases "read_u8 buf (pos + 3)")
    show ?thesis
    proof (cases a)
      case None
      with run r1 less.prems show ?thesis by (simp add: dma_loop_break)
    next
      case (Some bDMAId)
      note id = r1 [unfolded Some]
      obtain b p2 where r2: "read_u32 buf p1 = (b, p2)" by (cases "read_u32 buf p1")
      show ?thesis
      proof (cases b)
        case None
        with run id r2 less.prems show ?thesis by (simp add: dma_loop_raise1)
      next
        case (Some uiDataOffset)
        note off = r2 [unfolded Some]
        obtain c p3 where r3: "read_u32 buf (p2 + 4) = (c, p3)"
          by (cases "read_u32 buf (p2 + 4)")
        show ?thesis
        proof (cases c)
          case None
          with run id off r3 less.prems show ?thesis by (simp add: dma_loop_raise2)
        next
          case (Some uiDataType)
          note ty = r3 [unfolded Some]
          note step = dma_loop_step [OF run id off ty, of ss idxcount ms]
          have m32: "(if r then 0 else Suc (dend - (pos + 32))) < (if r then 0 else Suc (dend - pos))"
            using run by simp
          have m16: "(if r then 0 else Suc (dend - (pos + 16))) < (if r then 0 else Suc (dend - pos))"
            using run by simp
          have mT: "(if True then 0 else Suc (dend - (pos + 16))) < (if r then 0 else Suc (dend - pos))"
            using run by simp
          from less.prems less.hyps [OF m32] less.hyps [OF m16] less.hyps [OF mT]
          show ?thesis by (auto simp: step split: if_splits)
        qed
      qed
    qed
  qed
qed

lemma parse_split_error:
  "parse_split buf bm i pos = Inl e \<Longrightarrow> e = StructError \<or> e = IndexError"
  by (auto simp: parse_split_unfold split: prod.splits option.splits if_splits sum.splits
           dest: dma_loop_error)

lemma split_loop_error:
  "split_loop buf bm idxs pos acc = Inl e \<Longrightarrow> e = StructError \<or> e = IndexError"
proof (induction idxs arbitrary: pos acc)
  case Nil
  then show ?case by simp
next
  case (Cons i idxs)
  show ?case
  proof (cases "parse_split buf bm i pos")
    case (Inl e')
    with Cons.prems parse_split_error [OF Inl] show ?thesis by simp
  next
    case (Inr r)
    obtain ms pos' where "r = (ms, pos')" by (cases r)
    with Inr Cons.prems Cons.IH show ?thesis by simp
  qed
qed

lemma parse_split_total:
  assumes "read_u32 buf pos = (Some sz, p1)" and "read_u32 buf (pos + 12) = (Some w, p2)"
    and "i < length (binMeshes bm)" and "pos + 8 + unat w * 16 \<le> length buf"
  shows "\<exists>ms. parse_split buf bm i pos = Inr (ms, pos + 8 + unat sz)"
proof -
  have "\<exists>ms' p. dma_loop buf (pos + 8) (pos + 8 + unat w * 16) (iIndexCount (binMeshes bm ! i))
          (pos + 8) False (initial_split bm i) = Inr (ms', p)"
    using assms(4) by (intro dma_loop_total [where k = "unat w" and j = 0]) simp_all
  then show ?thesis using assms(1-3)
    by (auto simp: parse_split_unfold)
qed

lemma split_loop_total:
  "splits_readable buf bm idxs pos \<Longrightarrow>
     \<exists>res. split_loop buf bm idxs pos acc = Inr res \<and> length res = length acc + length idxs"
proof (induction idxs arbitrary: pos acc)
  case Nil
  then show ?case by simp
next
  case (Cons i idxs)
  obtain a p1 where r1: "read_u32 buf pos = (a, p1)" by (cases "read_u32 buf pos")
  obtain b p2 where r2: "read_u32 buf (pos + 12) = (b, p2)" by (cases "read_u32 buf (pos + 12)")
  from Cons.prems r1 r2 obtain sz where a: "a = Some sz" by (cases a) simp_all
  from Cons.prems r1 r2 a obtain w where b: "b = Some w" by (cases b) simp_all
  from Cons.prems r1 r2 a b have r: "read_u32 buf pos = (Some sz, p1)"
      "read_u32 buf (pos + 12) = (Some w, p2)" "i < length (binMeshes bm)"
      "pos + 8 + unat w * 16 \<le> length buf" "splits_readable buf bm idxs (pos + 8 + unat sz)"
    by simp_all
  from parse_split_total [OF r(1-4)] obtain ms where
    "parse_split buf bm i pos = Inr (ms, pos + 8 + unat sz)" by blast
  with Cons.IH [OF r(5), of "acc @ [ms]"] show ?case by simp
qed


lemma read_i32_short: "length buf < pos + 4 \<Longrightarrow> \<exists>p. read_i32 buf pos = (None, p)"
  by (simp add: read_i32_def f_read_def Let_def)

lemma native_short:
  assumes "length buf < offset + 16"
  shows "parse_native_data_plg buf offset bm = Inl StructError"
proof -
  have "\<not> (\<exists>x1 p1 x2 p2 x3 p3 m p4. read_i32 buf offset = (Some x1, p1) \<and>
          read_i32 buf p1 = (Some x2, p2) \<and> read_i32 buf p2 = (Some x3, p3) \<and>
          read_i32 buf p3 = (Some m, p4))"
  proof
    assume "\<exists>x1 p1 x2 p2 x3 p3 m p4. read_i32 buf offset = (Some x1, p1) \<and>
          read_i32 buf p1 = (Some x2, p2) \<and> read_i32 buf p2 = (Some x3, p3) \<and>
          read_i32 buf p3 = (Some m, p4)"
    then obtain x1 p1 x2 p2 x3 p3 m p4 where r: "read_i32 buf offset = (Some x1, p1)"
      "read_i32 buf p1 = (Some x2, p2)" "read_i32 buf p2 = (Some x3, p3)"
      "read_i32 buf p3 = (Some m, p4)" by blast
    from read_i32_Some [OF r(1)] read_i32_Some [OF r(2)] read_i32_Some [OF r(3)]
      read_i32_Some [OF r(4)] assms show False by simp
  qed
  then show ?thesis
    by (auto simp: parse_native_data_plg_def split: prod.splits option.splits)
qed

lemma native_unfold:
  "parse_native_data_plg buf offset bm =
     (case read_i32 buf (offset + 12) of
        (None, _) \<Rightarrow> Inl StructError
      | (Some maybe_struct, _) \<Rightarrow>
          if maybe_struct \<noteq> 1 then Inl (StructIdError (offset + 16))
          else
     (case read_i32 buf (offset + 16) of
        (None, _) \<Rightarrow> Inl StructError
      | (Some struct_section_size, _) \<Rightarrow>
     (case read_i32 buf (offset + 20) of
        (None, _) \<Rightarrow> Inl StructError
      | (Some struct_rwv, _) \<Rightarrow>
          if struct_section_size = 4 then Inr []
          else
     (case read_u32 buf (offset + 24) of
        (None, _) \<Rightarrow> Inl StructError
      | (Some uiPlatform, _) \<Rightarrow>
          if uiPlatform \<noteq> 0x4 then Inl (UnsupportedPlatform (unat uiPlatform))
          else split_loop buf bm [0..<nat (iMaterialSplitCount bm)] (offset + 28) []))))"
proof (cases "offset + 16 \<le> length buf")
  case False
  then have "length buf < offset + 12 + 4" by simp
  from read_i32_short [OF this] obtain p where "read_i32 buf (offset + 12) = (None, p)" by blast
  with False show ?thesis by (simp add: native_short)
next
  case True
  have r1: "read_i32 buf offset = (Some (to_signed 32 (le_nat (take 4 (drop offset buf)))), offset + 4)"
    using True by (intro read_i32_ok) simp
  have r2: "read_i32 buf (offset + 4) =
      (Some (to_signed 32 (le_nat (take 4 (drop (offset + 4) buf)))), offset + 4 + 4)"
    using True by (intro read_i32_ok) simp
  have r3: "read_i32 buf (offset + 4 + 4) =
      (Some (to_signed 32 (le_nat (take 4 (drop (offset + 4 + 4) buf)))), offset + 4 + 4 + 4)"
    using True by (intro read_i32_ok) simp
  have r4: "read_i32 buf (offset + 4 + 4 + 4) =
      (Some (to_signed 32 (le_nat (take 4 (drop (offset + 4 + 4 + 4) buf)))),
       offset + 4 + 4 + 4 + 4)"
    using True by (intro read_i32_ok) simp
  have e: "offset + 4 + 4 + 4 = offset + 12" "offset + 12 + 4 = offset + 16" by simp_all
  note r4' = r4 [unfolded e]
  obtain a p5 where r5: "read_i32 buf (offset + 16) = (a, p5)"
    by (cases "read_i32 buf (offset + 16)")
  show ?thesis
  proof (cases a)
    case None
    show ?thesis
      by (simp only: parse_native_data_plg_def r1 r2 r3 e r4' r5 None prod.case option.case
            STRUCT_ID_def)
  next
    case (Some n)
    with r5 have p5: "p5 = offset + 20" using read_i32_cursor by fastforce
    note r5' = r5 [unfolded Some p5]
    obtain b p6 where r6: "read_i32 buf (offset + 20) = (b, p6)"
      by (cases "read_i32 buf (offset + 20)")
    show ?thesis
    proof (cases b)
      case None
      show ?thesis
        by (simp only: parse_native_data_plg_def r1 r2 r3 e r4' r5' r6 None prod.case option.case
              STRUCT_ID_def)
    next
      case (Some rwv)
      with r6 have p6: "p6 = offset + 24" using read_i32_cursor by fastforce
      note r6' = r6 [unfolded Some p6]
      obtain c p7 where r7: "read_u32 buf (offset + 24) = (c, p7)"
        by (cases "read_u32 buf (offset + 24)")
      show ?thesis
      proof (cases c)
        case None
        show ?thesis
          by (simp only: parse_native_data_plg_def r1 r2 r3 e r4' r5' r6' r7 None prod.case
                option.case STRUCT_ID_def)
      next
        case (Some w)
        with r7 have p7: "p7 = offset + 28" using read_u32_cursor by fastforce
        note r7' = r7 [unfolded Some p7]
        show ?thesis
          by (simp only: parse_native_data_plg_def r1 r2 r3 e r4' r5' r6' r7' prod.case
                option.case STRUCT_ID_def Let_def)
      qed
    qed
  qed
qed


lemma native_struct_id_error:
  "parse_native_data_plg buf offset bm = Inl (StructIdError p) \<longleftrightarrow>
     (\<exists>m. read_i32 buf (offset + 12) = (Some m, offset + 16) \<and> m \<noteq> 1) \<and> p = offset + 16"
proof
  assume a: "parse_native_data_plg buf offset bm = Inl (StructIdError p)"
  obtain x q where r: "read_i32 buf (offset + 12) = (x, q)" by (cases "read_i32 buf (offset + 12)")
  from a r obtain m where x: "x = Some m"
    by (cases x) (simp_all add: native_unfold)
  with r have q: "q = offset + 16" using read_i32_cursor by fastforce
  have "m \<noteq> 1 \<and> p = offset + 16"
  proof (rule ccontr)
    assume "\<not> (m \<noteq> 1 \<and> p = offset + 16)"
    with a r x have "m = 1" by (auto simp: native_unfold split: if_splits)
    with a r x show False
      by (auto simp: native_unfold split: prod.splits option.splits if_splits
               dest: split_loop_error)
  qed
  with r x q show "(\<exists>m. read_i32 buf (offset + 12) = (Some m, offset + 16) \<and> m \<noteq> 1) \<and> p = offset + 16"
    by simp
next
  assume "(\<exists>m. read_i32 buf (offset + 12) = (Some m, offset + 16) \<and> m \<noteq> 1) \<and> p = offset + 16"
  then show "parse_native_data_plg buf offset bm = Inl (StructIdError p)"
    by (auto simp: native_unfold)
qed

lemma native_platform_error:
  "parse_native_data_plg buf offset bm = Inl (UnsupportedPlatform v) \<longleftrightarrow>
     read_i32 buf (offset + 12) = (Some 1, offset + 16) \<and>
     (\<exists>n. read_i32 buf (offset + 16) = (Some n, offset + 20) \<and> n \<noteq> 4) \<and>
     (\<exists>w. read_u32 buf (offset + 24) = (Some w, offset + 28) \<and> w \<noteq> 4 \<and> v = unat w)"
proof
  assume a: "parse_native_data_plg buf offset bm = Inl (UnsupportedPlatform v)"
  then show "read_i32 buf (offset + 12) = (Some 1, offset + 16) \<and>
     (\<exists>n. read_i32 buf (offset + 16) = (Some n, offset + 20) \<and> n \<noteq> 4) \<and>
     (\<exists>w. read_u32 buf (offset + 24) = (Some w, offset + 28) \<and> w \<noteq> 4 \<and> v = unat w)"
    by (auto simp: native_unfold split: prod.splits option.splits if_splits
             dest: split_loop_error read_i32_cursor read_u32_cursor)
next
  assume h: "read_i32 buf (offset + 12) = (Some 1, offset + 16) \<and>
     (\<exists>n. read_i32 buf (offset + 16) = (Some n, offset + 20) \<and> n \<noteq> 4) \<and>
     (\<exists>w. read_u32 buf (offset + 24) = (Some w, offset + 28) \<and> w \<noteq> 4 \<and> v = unat w)"
  then obtain w where w: "read_u32 buf (offset + 24) = (Some w, offset + 28)" by blast
  from read_u32_Some [OF w] have "offset + 20 + 4 \<le> length buf" by simp
  from read_i32_ok [OF this] h show "parse_native_data_plg buf offset bm = Inl (UnsupportedPlatform v)"
    by (auto simp: native_unfold)
qed

lemma native_total:
  assumes "read_i32 buf (offset + 12) = (Some 1, offset + 16)"
    and "read_i32 buf (offset + 16) = (Some n, offset + 20)"
    and "read_u32 buf (offset + 24) = (Some 4, offset + 28)"
    and "splits_readable buf bm [0..<nat (iMaterialSplitCount bm)] (offset + 28)"
    and "n \<noteq> 4"
  shows "\<exists>res. parse_native_data_plg buf offset bm = Inr res \<and>
           length res = nat (iMaterialSplitCount bm)"
proof -
  from read_u32_Some [OF assms(3)] have "offset + 20 + 4 \<le> length buf" by simp
  note r = read_i32_ok [OF this]
  from split_loop_total [OF assms(4), of "[]"] obtain res where
    "split_loop buf bm [0..<nat (iMaterialSplitCount bm)] (offset + 28) [] = Inr res"
    "length res = nat (iMaterialSplitCount bm)" by auto
  with assms(1-3,5) r show ?thesis by (simp add: native_unfold)
qed

lemma native_empty:
  assumes "read_i32 buf (offset + 12) = (Some 1, offset + 16)"
    and "read_i32 buf (offset + 16) = (Some 4, offset + 20)" and "offset + 24 \<le> length buf"
  shows "parse_native_data_plg buf offset bm = Inr []"
proof -
  from assms(3) have "offset + 20 + 4 \<le> length buf" by simp
  from read_i32_ok [OF this] assms(1,2) show ?thesis by (simp add: native_unfold)
qed

lemma dma_loop_guard:
  "pos < dend \<Longrightarrow> length buf \<le> pos + 3 \<Longrightarrow>
     dma_loop buf ss dend idxcount pos False ms = Inr (ms, pos + 3)"
  by (simp add: dma_loop_break read_u8_past_end)

text \<open>
  Claim C2, as stated: the decoder raises in two cases only, a structure marker other than
  1 and a platform other than 4. Here the marker is 1 and the platform is 4, the header
  announces one split, and the buffer ends after the platform field: the read of the
  split's size raises \<open>struct.error\<close>.
\<close>

theorem native_decoder_errors_counterexample:
  "parse_native_data_plg example_native_header 0 (example_binmesh 1) = Inl StructError
   \<and> read_i32 example_native_header 12 = (Some 1, 16)
   \<and> read_u32 example_native_header 24 = (Some 4, 28)"
  by (simp add: example_native_header_def example_binmesh_def decoder_eval)

text \<open>
  Claim C2, amended. The decoder raises its error about the structure marker exactly when
  the marker can be read and is not 1, and its error about the platform exactly when the
  marker is 1, the size of the structure is not 4 and the platform can be read and is not
  4; every other error is the unnamed one of a read that ran out of bytes, or of a split
  index that the header does not have. With the marker 1 and the structure size 4 it
  returns no split. With the marker 1, another structure size and the platform 4 it
  returns one split for each split of the header whenever, for each split in turn, the
  two sizes of its block can be read, the header has the split, and the DMA stream of the
  block ends within the buffer: no truncation of a vertex block makes it fail. A DMA entry
  whose id lies beyond the end of the buffer ends the loop over the entries with the split
  as it is.
\<close>

theorem native_decoder_errors:
  "(parse_native_data_plg buf offset bm = Inl (StructIdError p) \<longleftrightarrow>
      (\<exists>m. read_i32 buf (offset + 12) = (Some m, offset + 16) \<and> m \<noteq> 1) \<and> p = offset + 16)
   \<and> (parse_native_data_plg buf offset bm = Inl (UnsupportedPlatform v) \<longleftrightarrow>
        read_i32 buf (offset + 12) = (Some 1, offset + 16) \<and>
        (\<exists>n. read_i32 buf (offset + 16) = (Some n, offset + 20) \<and> n \<noteq> 4) \<and>
        (\<exists>w. read_u32 buf (offset + 24) = (Some w, offset + 28) \<and> w \<noteq> 4 \<and> v = unat w))
   \<and> (read_i32 buf (offset + 12) = (Some 1, offset + 16) \<and>
        read_i32 buf (offset + 16) = (Some 4, offset + 20) \<and> offset + 24 \<le> length buf
        \<longrightarrow> parse_native_data_plg buf offset bm = Inr [])
   \<and> (read_i32 buf (offset + 12) = (Some 1, offset + 16) \<and>
        read_i32 buf (offset + 16) = (Some n, offset + 20) \<and> n \<noteq> 4 \<and>
        read_u32 buf (offset + 24) = (Some 4, offset + 28) \<and>
        splits_readable buf bm [0..<nat (iMaterialSplitCount bm)] (offset + 28)
        \<longrightarrow> (\<exists>res. parse_native_data_plg buf offset bm = Inr res \<and>
                   length res = nat (iMaterialSplitCount bm)))
   \<and> (pos < dend \<and> length buf \<le> pos + 3
        \<longrightarrow> dma_loop buf ss dend idxcount pos False ms = Inr (ms, pos + 3))"
  using native_struct_id_error [of buf offset bm p] native_platform_error [of buf offset bm v]
    native_empty [of buf offset bm] native_total [of buf offset n bm]
    dma_loop_guard [of pos dend buf ss idxcount ms]
  by blast

theorem native_decoder_errors_witness:
  "parse_native_data_plg (example_native_header @ example_split) 0 (example_binmesh 1) =
     Inr [\<lparr>ms_iMaterialIndex = 7, Vertices = Some [Vector 2 (-1) 0], Triangles = [],
           HasVertexData = True\<rparr>]
   \<and> splits_readable (example_native_header @ example_split) (example_binmesh 1) [0] 28
   \<and> dma_loop (example_native_header @ example_split) 36 96 1 80 False
        (initial_split (example_binmesh 1) 0) = Inr (initial_split (example_binmesh 1) 0, 83)"
  using native_decoder_errors [where buf = "example_native_header @ example_split"
      and offset = 0 and bm = "example_binmesh 1" and p = 16 and v = 0 and n = 60
      and pos = 80 and dend = 96 and ss = 36 and idxcount = 1
      and ms = "initial_split (example_binmesh 1) 0"]
  by (simp add: example_native_header_def example_split_def example_binmesh_def decoder_eval)


end
